theory Spec2Isabelle
  imports Main
begin

section \<open>Raw storage, element types and outcomes\<close>

text \<open>
  The repository is one header, \<^verbatim>\<open>vector.h\<close>: \<^verbatim>\<open>RawMemory<T>\<close> owns a block of
  \<^verbatim>\<open>capacity_\<close> slots of uninitialised memory, and \<^verbatim>\<open>Vector<T>\<close> keeps a
  \<^verbatim>\<open>RawMemory<T> data_\<close> together with the count \<^verbatim>\<open>size_\<close> of constructed elements.

  A slot of a block is either raw memory or holds a constructed value. A block is the list
  of its slots; \<^verbatim>\<open>buffer_\<close> and \<^verbatim>\<open>capacity_\<close> of \<^verbatim>\<open>RawMemory\<close> are the list and its
  length (\<^verbatim>\<open>nullptr\<close> with capacity 0 is the empty list). Addresses inside a block are
  slot indices, so \<^verbatim>\<open>begin()\<close> is index 0 and an iterator \<^verbatim>\<open>pos\<close> is \<^verbatim>\<open>pos - begin()\<close>.
  Sizes and indices are natural numbers: a count of elements that are in memory is far
  below what \<^verbatim>\<open>size_t\<close> holds. The one computation that can wrap is the byte count of an
  allocation request of a size the caller chooses; see \<open>Allocate\<close>.
\<close>

datatype 'a slot = Raw | Live 'a

type_synonym 'a RawMemory = "'a slot list"

text \<open>
  What a call does besides changing the vector is recorded as a trace of events:
  \<^verbatim>\<open>operator new\<close> for a block of \<open>n\<close> slots, \<^verbatim>\<open>operator delete\<close> of a block (with the
  slots as they are at that moment), and a destructor call on a slot (with what the
  slot holds at that moment).
\<close>

datatype 'a event = Ev_allocate nat | Ev_deallocate "'a slot list" | Ev_destroy "'a slot"

text \<open>
  The element type \<^verbatim>\<open>T\<close> and the allocator, as the template sees them. A copy or a move
  produces the value it is given; a move leaves \<open>moved_from x\<close> behind in its source.
  Which operations throw is given per value. \<open>value_init\<close> is \<^verbatim>\<open>T()\<close>, \<open>None\<close> when it
  throws. \<open>alloc_throws n\<close> says that \<^verbatim>\<open>operator new(n * sizeof(T))\<close> throws.
  \<open>sizeof_T\<close> is \<^verbatim>\<open>sizeof(T)\<close>.
\<close>

record 'a env =
  nothrow_move_constructible :: bool
  copy_constructible :: bool
  value_init :: "'a option"
  copy_throws :: "'a \<Rightarrow> bool"
  move_throws :: "'a \<Rightarrow> bool"
  copy_assign_throws :: "'a \<Rightarrow> bool"
  move_assign_throws :: "'a \<Rightarrow> bool"
  moved_from :: "'a \<Rightarrow> 'a"
  alloc_throws :: "nat \<Rightarrow> bool"
  sizeof_T :: nat

text \<open>
  A call returns a result and a state, or throws and leaves a state behind, or ends
  abnormally (\<open>Fault\<close>): a failed \<^verbatim>\<open>assert\<close>, undefined behaviour (reading raw memory,
  access outside the block), or \<^verbatim>\<open>std::terminate\<close> for an exception inside a
  \<^verbatim>\<open>noexcept\<close> function.
\<close>

datatype ('r, 's) outcome = Return 'r 's | Throw 's | Fault

text \<open>What a member function returns: nothing, or the address of a slot of \<^verbatim>\<open>data_\<close>.\<close>

datatype ret = Void | Addr nat

subsection \<open>RawMemory\<close>

text \<open>
  \<^verbatim>\<open>RawMemory(capacity)\<close> takes its block from \<open>Allocate\<close>: no block and no call of
  \<^verbatim>\<open>operator new\<close> for \<open>n = 0\<close>, otherwise \<open>n\<close> raw slots or \<^verbatim>\<open>std::bad_alloc\<close> (\<open>None\<close>).
  \<^verbatim>\<open>~RawMemory()\<close> gives the block to \<open>Deallocate\<close>; \<^verbatim>\<open>operator delete(nullptr)\<close> does
  nothing.

  The code computes the byte count \<^verbatim>\<open>n * sizeof(T)\<close> in \<^verbatim>\<open>size_t\<close>, taken here as
  64 bits wide, \<open>size_max\<close> being its largest value. \<open>Allocate\<close> is the
  allocation of a request that fits (\<open>request_fits\<close>): then the block has the \<open>n\<close> slots
  that \<^verbatim>\<open>capacity_\<close> records. A request that does not fit wraps in the code, which then
  gets a block smaller than \<^verbatim>\<open>capacity_\<close> says; such a size is reached only where the
  caller chooses it (\<open>Reserve\<close>, \<open>Resize\<close>, the sized constructor), not by copying or by
  doubling from elements that are in memory, and what is proved of \<open>Reserve\<close> for a size
  left open assumes \<open>request_fits\<close>.
\<close>

definition size_max :: nat where
  "size_max = 2 ^ 64 - 1"

definition request_fits :: "'a env \<Rightarrow> nat \<Rightarrow> bool" where
  "request_fits E n = (n * sizeof_T E \<le> size_max)"

definition Allocate :: "'a env \<Rightarrow> nat \<Rightarrow> ('a RawMemory \<times> 'a event list) option" where
  "Allocate E n =
     (if n \<noteq> 0 then (if alloc_throws E n then None else Some (replicate n Raw, [Ev_allocate n]))
      else Some ([], []))"

definition Deallocate :: "'a RawMemory \<Rightarrow> 'a event list" where
  "Deallocate buf = (if buf = [] then [] else [Ev_deallocate buf])"

definition RawMemory_Swap :: "'a RawMemory \<times> 'a RawMemory \<Rightarrow> 'a RawMemory \<times> 'a RawMemory" where
  "RawMemory_Swap p = (snd p, fst p)"

text \<open>\<^verbatim>\<open>operator+\<close> and \<^verbatim>\<open>operator[]\<close>: \<^verbatim>\<open>assert(offset <= capacity_)\<close>, then the address.\<close>

definition RawMemory_at :: "'a RawMemory \<Rightarrow> nat \<Rightarrow> nat option" where
  "RawMemory_at buf offset = (if offset \<le> length buf then Some offset else None)"

subsection \<open>Single element operations\<close>

text \<open>Reading the value of a slot: defined only for a constructed slot inside the block.\<close>

definition read_slot :: "'a slot list \<Rightarrow> nat \<Rightarrow> 'a option" where
  "read_slot buf i =
     (if i < length buf then (case buf ! i of Live x \<Rightarrow> Some x | Raw \<Rightarrow> None) else None)"

text \<open>
  Placement new \<^verbatim>\<open>new (buf + i) T(args...)\<close>, the arguments being a value \<open>x\<close> to copy
  (\<^verbatim>\<open>PushBack(const T&)\<close>, \<^verbatim>\<open>Insert(pos, const T&)\<close>).
\<close>

definition placement_new :: "'a env \<Rightarrow> 'a slot list \<Rightarrow> nat \<Rightarrow> 'a \<Rightarrow> (unit, 'a slot list) outcome" where
  "placement_new E buf i x =
     (if i < length buf then
        (if copy_throws E x then Throw buf else Return () (buf[i := Live x]))
      else Fault)"

subsection \<open>The standard algorithms the vector calls\<close>

text \<open>
  \<^verbatim>\<open>std::destroy_n(buf + i, n)\<close>: the destructor on \<open>n\<close> slots from \<open>i\<close> on, in order.
  A destructor call on a slot outside the block or on a raw slot, where no object
  lives, is undefined behaviour (\<open>None\<close>). Element types with a trivial destructor, for
  which such a call does nothing, are not told apart: a run that is proved to return or
  to throw meets no such call, so the result holds for them as well.
\<close>

fun destroy_n :: "'a slot list \<Rightarrow> nat \<Rightarrow> nat \<Rightarrow> ('a slot list \<times> 'a event list) option" where
  "destroy_n buf i 0 = Some (buf, [])"
| "destroy_n buf i (Suc n) =
     (if i < length buf then
        (case buf ! i of
           Raw \<Rightarrow> None
         | Live x \<Rightarrow>
             (case destroy_n (buf[i := Raw]) (Suc i) n of
                None \<Rightarrow> None
              | Some (buf', ev) \<Rightarrow> Some (buf', Ev_destroy (Live x) # ev)))
      else None)"

text \<open>
  \<^verbatim>\<open>std::uninitialized_copy_n(src + s, n, dst + d)\<close>. The state is the source block, the
  destination block and the events. \<open>i\<close> elements are done, \<open>k\<close> remain. When a copy
  throws, the \<open>i\<close> elements constructed so far are destroyed and the exception goes on
  (the standard leaves the order of these destructor calls open; it is first to last
  here, as in the common implementations).
\<close>

fun copy_loop :: "'a env \<Rightarrow> 'a slot list \<Rightarrow> nat \<Rightarrow> 'a slot list \<Rightarrow> nat \<Rightarrow> nat \<Rightarrow> nat \<Rightarrow>
    (unit, 'a slot list \<times> 'a slot list \<times> 'a event list) outcome" where
  "copy_loop E src s dst d i 0 = Return () (src, dst, [])"
| "copy_loop E src s dst d i (Suc k) =
     (case read_slot src (s + i) of
        None \<Rightarrow> Fault
      | Some x \<Rightarrow>
          if d + i < length dst then
            (if copy_throws E x then
               (case destroy_n dst d i of
                  None \<Rightarrow> Fault
                | Some (dst', ev) \<Rightarrow> Throw (src, dst', ev))
             else copy_loop E src s (dst[d + i := Live x]) d (Suc i) k)
          else Fault)"

definition uninitialized_copy_n :: "'a env \<Rightarrow> 'a slot list \<Rightarrow> nat \<Rightarrow> nat \<Rightarrow> 'a slot list \<Rightarrow> nat \<Rightarrow>
    (unit, 'a slot list \<times> 'a slot list \<times> 'a event list) outcome" where
  "uninitialized_copy_n E src s n dst d = copy_loop E src s dst d 0 n"

text \<open>
  \<^verbatim>\<open>std::uninitialized_move_n(src + s, n, dst + d)\<close>: as the copy, but each element is
  move-constructed, which leaves its source slot in the moved-from state.
\<close>

fun move_loop :: "'a env \<Rightarrow> 'a slot list \<Rightarrow> nat \<Rightarrow> 'a slot list \<Rightarrow> nat \<Rightarrow> nat \<Rightarrow> nat \<Rightarrow>
    (unit, 'a slot list \<times> 'a slot list \<times> 'a event list) outcome" where
  "move_loop E src s dst d i 0 = Return () (src, dst, [])"
| "move_loop E src s dst d i (Suc k) =
     (case read_slot src (s + i) of
        None \<Rightarrow> Fault
      | Some x \<Rightarrow>
          if d + i < length dst then
            (if move_throws E x then
               (case destroy_n dst d i of
                  None \<Rightarrow> Fault
                | Some (dst', ev) \<Rightarrow> Throw (src, dst', ev))
             else move_loop E (src[s + i := Live (moved_from E x)]) s (dst[d + i := Live x]) d (Suc i) k)
          else Fault)"

definition uninitialized_move_n :: "'a env \<Rightarrow> 'a slot list \<Rightarrow> nat \<Rightarrow> nat \<Rightarrow> 'a slot list \<Rightarrow> nat \<Rightarrow>
    (unit, 'a slot list \<times> 'a slot list \<times> 'a event list) outcome" where
  "uninitialized_move_n E src s n dst d = move_loop E src s dst d 0 n"

text \<open>\<^verbatim>\<open>std::uninitialized_value_construct_n(dst + d, n)\<close>.\<close>

fun value_construct_loop :: "'a env \<Rightarrow> 'a slot list \<Rightarrow> nat \<Rightarrow> nat \<Rightarrow> nat \<Rightarrow>
    (unit, 'a slot list \<times> 'a event list) outcome" where
  "value_construct_loop E dst d i 0 = Return () (dst, [])"
| "value_construct_loop E dst d i (Suc k) =
     (if d + i < length dst then
        (case value_init E of
           None \<Rightarrow>
             (case destroy_n dst d i of
                None \<Rightarrow> Fault
              | Some (dst', ev) \<Rightarrow> Throw (dst', ev))
         | Some x \<Rightarrow> value_construct_loop E (dst[d + i := Live x]) d (Suc i) k)
      else Fault)"

definition uninitialized_value_construct_n :: "'a env \<Rightarrow> 'a slot list \<Rightarrow> nat \<Rightarrow> nat \<Rightarrow>
    (unit, 'a slot list \<times> 'a event list) outcome" where
  "uninitialized_value_construct_n E dst d n = value_construct_loop E dst d 0 n"

text \<open>
  Move assignment \<^verbatim>\<open>buf[d] = std::move(buf[f])\<close> between two constructed slots of one
  block: \<open>None\<close> is undefined behaviour, \<open>Some None\<close> an exception (nothing changed).
\<close>

definition move_assign :: "'a env \<Rightarrow> 'a slot list \<Rightarrow> nat \<Rightarrow> nat \<Rightarrow> 'a slot list option option" where
  "move_assign E buf d f =
     (case (read_slot buf f, read_slot buf d) of
        (Some x, Some y) \<Rightarrow>
          if move_assign_throws E x then Some None
          else Some (Some ((buf[d := Live x])[f := Live (moved_from E x)]))
      | _ \<Rightarrow> None)"

text \<open>
  \<^verbatim>\<open>std::move(buf + f, buf + f + k, buf + d)\<close>, the algorithm: \<open>k\<close> move assignments,
  lowest index first.
\<close>

fun move_range :: "'a env \<Rightarrow> 'a slot list \<Rightarrow> nat \<Rightarrow> nat \<Rightarrow> nat \<Rightarrow> (unit, 'a slot list) outcome" where
  "move_range E buf f d 0 = Return () buf"
| "move_range E buf f d (Suc k) =
     (case move_assign E buf d f of
        None \<Rightarrow> Fault
      | Some None \<Rightarrow> Throw buf
      | Some (Some buf') \<Rightarrow> move_range E buf' (Suc f) (Suc d) k)"

text \<open>
  \<^verbatim>\<open>std::move_backward(buf + l - k, buf + l, buf + dl)\<close>: \<open>k\<close> move assignments, highest
  index first, \<^verbatim>\<open>*--dl = std::move(*--l)\<close>.
\<close>

fun move_backward :: "'a env \<Rightarrow> 'a slot list \<Rightarrow> nat \<Rightarrow> nat \<Rightarrow> nat \<Rightarrow> (unit, 'a slot list) outcome" where
  "move_backward E buf l dl 0 = Return () buf"
| "move_backward E buf l dl (Suc k) =
     (if l = 0 \<or> dl = 0 then Fault
      else
        (case move_assign E buf (dl - 1) (l - 1) of
           None \<Rightarrow> Fault
         | Some None \<Rightarrow> Throw buf
         | Some (Some buf') \<Rightarrow> move_backward E buf' (l - 1) (dl - 1) k))"


section \<open>Vector\<close>

record 'a Vector =
  data :: "'a RawMemory"
  size_v :: nat

definition Size :: "'a Vector \<Rightarrow> nat" where
  "Size v = size_v v"

definition Capacity :: "'a Vector \<Rightarrow> nat" where
  "Capacity v = length (data v)"

definition Empty :: "'a Vector \<Rightarrow> bool" where
  "Empty v = (size_v v = 0)"

definition begin_it :: "'a Vector \<Rightarrow> nat" where
  "begin_it v = 0"

text \<open>\<^verbatim>\<open>end()\<close> is \<^verbatim>\<open>(size_ != 0) ? &data_[size_] : begin()\<close>; \<open>None\<close> is the failed assert.\<close>

definition end_it :: "'a Vector \<Rightarrow> nat option" where
  "end_it v = (if size_v v \<noteq> 0 then RawMemory_at (data v) (size_v v) else Some (begin_it v))"

text \<open>\<^verbatim>\<open>operator[]\<close>: \<^verbatim>\<open>assert(index < size_)\<close>, then the address of \<^verbatim>\<open>data_[index]\<close>.\<close>

definition operator_index :: "'a Vector \<Rightarrow> nat \<Rightarrow> nat option" where
  "operator_index v index = (if index < size_v v then RawMemory_at (data v) index else None)"

text \<open>
  \<^verbatim>\<open>CopyDataRange(source + s, count, dest + d)\<close>: the \<^verbatim>\<open>if constexpr\<close> on the element type
  chooses between moving and copying.
\<close>

definition CopyDataRange :: "'a env \<Rightarrow> 'a slot list \<Rightarrow> nat \<Rightarrow> nat \<Rightarrow> 'a slot list \<Rightarrow> nat \<Rightarrow>
    (unit, 'a slot list \<times> 'a slot list \<times> 'a event list) outcome" where
  "CopyDataRange E source s count dest d =
     (if nothrow_move_constructible E \<or> \<not> copy_constructible E
      then uninitialized_move_n E source s count dest d
      else uninitialized_copy_n E source s count dest d)"

subsection \<open>Constructors, destructor, Swap\<close>

definition Vector_default :: "'a Vector" where
  "Vector_default = \<lparr>data = [], size_v = 0\<rparr>"

text \<open>
  A constructor returns the new vector and the events, or throws (then there is no
  object, only the events).
\<close>

definition Vector_sized :: "'a env \<Rightarrow> nat \<Rightarrow> ('a Vector, 'a event list) outcome" where
  "Vector_sized E n =
     (case Allocate E n of
        None \<Rightarrow> Throw []
      | Some (buf, ev0) \<Rightarrow>
          (case uninitialized_value_construct_n E buf 0 n of
             Fault \<Rightarrow> Fault
           | Throw (buf', ev) \<Rightarrow> Throw (ev0 @ ev @ Deallocate buf')
           | Return _ (buf', ev) \<Rightarrow> Return \<lparr>data = buf', size_v = n\<rparr> (ev0 @ ev)))"

definition Vector_copy :: "'a env \<Rightarrow> 'a Vector \<Rightarrow> ('a Vector, 'a event list) outcome" where
  "Vector_copy E other =
     (case Allocate E (size_v other) of
        None \<Rightarrow> Throw []
      | Some (buf, ev0) \<Rightarrow>
          (case uninitialized_copy_n E (data other) 0 (size_v other) buf 0 of
             Fault \<Rightarrow> Fault
           | Throw (_, buf', ev) \<Rightarrow> Throw (ev0 @ ev @ Deallocate buf')
           | Return _ (_, buf', ev) \<Rightarrow> Return \<lparr>data = buf', size_v = size_v other\<rparr> (ev0 @ ev)))"

text \<open>The move constructor gives the new vector and what is left of \<open>other\<close>.\<close>

definition Vector_move :: "'a Vector \<Rightarrow> 'a Vector \<times> 'a Vector" where
  "Vector_move other = (\<lparr>data = data other, size_v = size_v other\<rparr>, \<lparr>data = [], size_v = 0\<rparr>)"

text \<open>\<^verbatim>\<open>~Vector()\<close>: \<^verbatim>\<open>std::destroy_n(data_.GetAddress(), size_)\<close>, then \<^verbatim>\<open>~RawMemory()\<close>.\<close>

definition Vector_dtor :: "'a Vector \<Rightarrow> 'a event list option" where
  "Vector_dtor v =
     (case destroy_n (data v) 0 (size_v v) of
        None \<Rightarrow> None
      | Some (buf, ev) \<Rightarrow> Some (ev @ Deallocate buf))"

definition Swap :: "'a Vector \<times> 'a Vector \<Rightarrow> 'a Vector \<times> 'a Vector" where
  "Swap p =
     (case RawMemory_Swap (data (fst p), data (snd p)) of
        (d1, d2) \<Rightarrow> (\<lparr>data = d1, size_v = size_v (snd p)\<rparr>, \<lparr>data = d2, size_v = size_v (fst p)\<rparr>))"

subsection \<open>Reserve, Resize, PopBack\<close>

definition Reserve :: "'a env \<Rightarrow> nat \<Rightarrow> 'a Vector \<Rightarrow> (ret, 'a Vector \<times> 'a event list) outcome" where
  "Reserve E new_capacity v =
     (if new_capacity \<le> Capacity v then Return Void (v, [])
      else
        (case Allocate E new_capacity of
           None \<Rightarrow> Throw (v, [])
         | Some (new_data, ev0) \<Rightarrow>
             (case CopyDataRange E (data v) 0 (size_v v) new_data 0 of
                Fault \<Rightarrow> Fault
              | Throw (src, dst, ev1) \<Rightarrow> Throw (v\<lparr>data := src\<rparr>, ev0 @ ev1 @ Deallocate dst)
              | Return _ (src, dst, ev1) \<Rightarrow>
                  (case RawMemory_Swap (src, dst) of
                     (data', new_data') \<Rightarrow>
                       (case destroy_n new_data' 0 (length new_data') of
                          None \<Rightarrow> Fault
                        | Some (old, ev2) \<Rightarrow>
                            Return Void (\<lparr>data = data', size_v = size_v v\<rparr>,
                                         ev0 @ ev1 @ ev2 @ Deallocate old))))))"

text \<open>
  In the first branch \<^verbatim>\<open>data_ + size_\<close> asserts \<^verbatim>\<open>size_ <= capacity_\<close>; past it the
  capacity is \<open>new_size\<close>, so \<^verbatim>\<open>new_size - size_\<close> does not wrap. The second branch is the
  loop \<^verbatim>\<open>for (i = new_size; i < size_; i++) data_[i].~T()\<close>: the steps of \<open>destroy_n\<close>
  from \<open>new_size\<close>, \<open>size_ - new_size\<close> of them, none when \<open>new_size\<close> is not below \<open>size_\<close>.
\<close>

definition Resize :: "'a env \<Rightarrow> nat \<Rightarrow> 'a Vector \<Rightarrow> (ret, 'a Vector \<times> 'a event list) outcome" where
  "Resize E new_size v =
     (if new_size \<ge> Capacity v then
        (case Reserve E new_size v of
           Fault \<Rightarrow> Fault
         | Throw s \<Rightarrow> Throw s
         | Return _ (v1, ev1) \<Rightarrow>
             (case RawMemory_at (data v1) (size_v v1) of
                None \<Rightarrow> Fault
              | Some d \<Rightarrow>
                  (case uninitialized_value_construct_n E (data v1) d (new_size - size_v v1) of
                     Fault \<Rightarrow> Fault
                   | Throw (buf, ev2) \<Rightarrow> Throw (v1\<lparr>data := buf\<rparr>, ev1 @ ev2)
                   | Return _ (buf, ev2) \<Rightarrow>
                       Return Void (\<lparr>data = buf, size_v = new_size\<rparr>, ev1 @ ev2))))
      else
        (case destroy_n (data v) new_size (size_v v - new_size) of
           None \<Rightarrow> Fault
         | Some (buf, ev) \<Rightarrow> Return Void (\<lparr>data = buf, size_v = new_size\<rparr>, ev)))"

definition PopBack :: "'a Vector \<Rightarrow> (ret, 'a Vector \<times> 'a event list) outcome" where
  "PopBack v =
     (if \<not> Empty v then
        (case destroy_n (data v) (size_v v - 1) 1 of
           None \<Rightarrow> Fault
         | Some (buf, ev) \<Rightarrow> Return Void (\<lparr>data = buf, size_v = size_v v - 1\<rparr>, ev))
      else Return Void (v, []))"

subsection \<open>EmplaceBack, PushBack\<close>

definition EmplaceBack :: "'a env \<Rightarrow> 'a \<Rightarrow> 'a Vector \<Rightarrow> (ret, 'a Vector \<times> 'a event list) outcome" where
  "EmplaceBack E x v =
     (if size_v v = Capacity v then
        (case Allocate E (if Capacity v = 0 then 1 else 2 * Capacity v) of
           None \<Rightarrow> Throw (v, [])
         | Some (new_data, ev0) \<Rightarrow>
             (case placement_new E new_data (size_v v) x of
                Fault \<Rightarrow> Fault
              | Throw nd \<Rightarrow> Throw (v, ev0 @ Deallocate nd)
              | Return _ nd \<Rightarrow>
                  (case (if nothrow_move_constructible E \<or> \<not> copy_constructible E
                         then uninitialized_move_n E (data v) 0 (size_v v) nd 0
                         else uninitialized_copy_n E (data v) 0 (size_v v) nd 0) of
                     Fault \<Rightarrow> Fault
                   | Throw (src, dst, ev1) \<Rightarrow>
                       Throw (v\<lparr>data := src\<rparr>, ev0 @ ev1 @ Deallocate dst)
                   | Return _ (src, dst, ev1) \<Rightarrow>
                       (case RawMemory_Swap (src, dst) of
                          (data', new_data') \<Rightarrow>
                            (case destroy_n new_data' 0 (length new_data') of
                               None \<Rightarrow> Fault
                             | Some (old, ev2) \<Rightarrow>
                                 (case RawMemory_at data' (size_v v + 1 - 1) of
                                    None \<Rightarrow> Fault
                                  | Some a \<Rightarrow>
                                      Return (Addr a)
                                        (\<lparr>data = data', size_v = size_v v + 1\<rparr>,
                                         ev0 @ ev1 @ ev2 @ Deallocate old)))))))
      else
        (case placement_new E (data v) (size_v v) x of
           Fault \<Rightarrow> Fault
         | Throw _ \<Rightarrow> Throw (v, [])
         | Return _ buf \<Rightarrow>
             (case RawMemory_at buf (size_v v + 1 - 1) of
                None \<Rightarrow> Fault
              | Some a \<Rightarrow> Return (Addr a) (\<lparr>data = buf, size_v = size_v v + 1\<rparr>, []))))"

text \<open>\<^verbatim>\<open>void PushBack(Value&& value)\<close> calls \<open>EmplaceBack\<close> and drops the reference.\<close>

definition PushBack :: "'a env \<Rightarrow> 'a \<Rightarrow> 'a Vector \<Rightarrow> (ret, 'a Vector \<times> 'a event list) outcome" where
  "PushBack E value v =
     (case EmplaceBack E value v of
        Fault \<Rightarrow> Fault
      | Throw s \<Rightarrow> Throw s
      | Return _ s \<Rightarrow> Return Void s)"


subsection \<open>Emplace, Insert, Erase\<close>

text \<open>
  Move construction \<^verbatim>\<open>new (buf + d) T(std::move(buf[f]))\<close> inside one block: \<open>None\<close> is
  undefined behaviour, \<open>Some None\<close> an exception (nothing changed).
\<close>

definition move_construct :: "'a env \<Rightarrow> 'a slot list \<Rightarrow> nat \<Rightarrow> nat \<Rightarrow> 'a slot list option option" where
  "move_construct E buf d f =
     (case read_slot buf f of
        None \<Rightarrow> None
      | Some x \<Rightarrow>
          if d < length buf then
            (if move_throws E x then Some None
             else Some (Some ((buf[d := Live x])[f := Live (moved_from E x)])))
          else None)"

text \<open>
  \<^verbatim>\<open>data_[value_pos] = T(args...)\<close>: the temporary is constructed, move-assigned to the
  slot and destroyed.
\<close>

definition assign_temporary :: "'a env \<Rightarrow> 'a slot list \<Rightarrow> nat \<Rightarrow> 'a \<Rightarrow>
    (unit, 'a slot list \<times> 'a event list) outcome" where
  "assign_temporary E buf i x =
     (if copy_throws E x then Throw (buf, [])
      else
        (case read_slot buf i of
           None \<Rightarrow> Fault
         | Some y \<Rightarrow>
             if move_assign_throws E x then Throw (buf, [Ev_destroy (Live x)])
             else Return () (buf[i := Live x], [Ev_destroy (Live (moved_from E x))])))"

text \<open>
  \<open>Emplace\<close> and \<open>Insert\<close> take what they insert by forwarding reference, and read it only
  where \<^verbatim>\<open>T(std::forward<Args>(args)...)\<close> is evaluated. The argument is an object outside
  the vector, or the element at an index of this very vector, as in
  \<^verbatim>\<open>v.Insert(v.begin(), v[2])\<close>; reading it then gives what that slot holds at that moment
  (\<open>None\<close>, undefined behaviour, when no object lives there). In the growing path and at
  the end the argument is read before any element has moved. In the interior path it is
  read after \<^verbatim>\<open>std::move_backward\<close> has shifted the elements.
\<close>

datatype 'a argument = External 'a | Element nat

definition read_argument :: "'a slot list \<Rightarrow> 'a argument \<Rightarrow> 'a option" where
  "read_argument buf a = (case a of External x \<Rightarrow> Some x | Element i \<Rightarrow> read_slot buf i)"

definition Emplace :: "'a env \<Rightarrow> nat \<Rightarrow> 'a argument \<Rightarrow> 'a Vector \<Rightarrow>
    (ret, 'a Vector \<times> 'a event list) outcome" where
  "Emplace E pos arg v =
     (let value_pos = pos - begin_it v in
      if size_v v = Capacity v then
        (case Allocate E (if Capacity v = 0 then 1 else 2 * Capacity v) of
           None \<Rightarrow> Throw (v, [])
         | Some (new_data, ev0) \<Rightarrow>
             (case read_argument (data v) arg of
                None \<Rightarrow> Fault
              | Some x \<Rightarrow>
             (case placement_new E new_data value_pos x of
                Fault \<Rightarrow> Fault
              | Throw nd \<Rightarrow> Throw (v, ev0 @ Deallocate nd)
              | Return _ nd1 \<Rightarrow>
                  (case CopyDataRange E (data v) 0 value_pos nd1 0 of
                     Fault \<Rightarrow> Fault
                   | Throw (src, nd2, ev1) \<Rightarrow>
                       Throw (v\<lparr>data := src\<rparr>, ev0 @ ev1 @ Deallocate nd2)
                   | Return _ (src, nd2, ev1) \<Rightarrow>
                       (case CopyDataRange E src value_pos (size_v v - value_pos) nd2 (value_pos + 1) of
                          Fault \<Rightarrow> Fault
                        | Throw (src', nd3, ev2) \<Rightarrow>
                            Throw (v\<lparr>data := src'\<rparr>, ev0 @ ev1 @ ev2 @ Deallocate nd3)
                        | Return _ (src', nd3, ev2) \<Rightarrow>
                            (case RawMemory_Swap (src', nd3) of
                               (data', new_data') \<Rightarrow>
                                 (case destroy_n new_data' 0 (length new_data') of
                                    None \<Rightarrow> Fault
                                  | Some (old, ev3) \<Rightarrow>
                                      (case RawMemory_at data' value_pos of
                                         None \<Rightarrow> Fault
                                       | Some a \<Rightarrow>
                                           Return (Addr a)
                                             (\<lparr>data = data', size_v = size_v v + 1\<rparr>,
                                              ev0 @ ev1 @ ev2 @ ev3 @ Deallocate old)))))))))
      else
        (case end_it v of
           None \<Rightarrow> Fault
         | Some e \<Rightarrow>
             if pos = e then
               (case read_argument (data v) arg of
                  None \<Rightarrow> Fault
                | Some x \<Rightarrow>
               (case placement_new E (data v) e x of
                  Fault \<Rightarrow> Fault
                | Throw _ \<Rightarrow> Throw (v, [])
                | Return _ buf \<Rightarrow>
                    (case RawMemory_at buf value_pos of
                       None \<Rightarrow> Fault
                     | Some a \<Rightarrow> Return (Addr a) (\<lparr>data = buf, size_v = size_v v + 1\<rparr>, []))))
             else if e = 0 then Fault
             else
               (case move_construct E (data v) e (e - 1) of
                  None \<Rightarrow> Fault
                | Some None \<Rightarrow> Throw (v, [])
                | Some (Some buf1) \<Rightarrow>
                    (case RawMemory_at buf1 value_pos of
                       None \<Rightarrow> Fault
                     | Some fst_it \<Rightarrow>
                         if e - 1 < fst_it then Fault
                         else
                           (case move_backward E buf1 (e - 1) e (e - 1 - fst_it) of
                              Fault \<Rightarrow> Fault
                            | Throw buf2 \<Rightarrow> Throw (v\<lparr>data := buf2\<rparr>, [])
                            | Return _ buf2 \<Rightarrow>
                                (case read_argument buf2 arg of
                                   None \<Rightarrow> Fault
                                 | Some x \<Rightarrow>
                                (case assign_temporary E buf2 value_pos x of
                                   Fault \<Rightarrow> Fault
                                 | Throw (buf3, ev) \<Rightarrow> Throw (v\<lparr>data := buf3\<rparr>, ev)
                                 | Return _ (buf3, ev) \<Rightarrow>
                                     Return (Addr value_pos)
                                       (\<lparr>data = buf3, size_v = size_v v + 1\<rparr>, ev))))))))"

definition Insert :: "'a env \<Rightarrow> nat \<Rightarrow> 'a argument \<Rightarrow> 'a Vector \<Rightarrow>
    (ret, 'a Vector \<times> 'a event list) outcome" where
  "Insert E pos value v = Emplace E pos value v"

text \<open>
  \<open>Erase\<close> is \<^verbatim>\<open>noexcept\<close>: an exception of a move assignment ends in \<^verbatim>\<open>std::terminate\<close>.
  \<^verbatim>\<open>std::move(first, last, d)\<close> with \<open>first\<close> past \<open>last\<close> is undefined.
\<close>

definition Erase :: "'a env \<Rightarrow> nat \<Rightarrow> 'a Vector \<Rightarrow> (ret, 'a Vector \<times> 'a event list) outcome" where
  "Erase E pos v =
     (if Empty v then Fault
      else
        (let value_pos = pos - begin_it v in
         case (RawMemory_at (data v) (value_pos + 1), end_it v, RawMemory_at (data v) value_pos) of
           (Some fst_it, Some lst_it, Some d) \<Rightarrow>
             if lst_it < fst_it then Fault
             else
               (case move_range E (data v) fst_it d (lst_it - fst_it) of
                  Fault \<Rightarrow> Fault
                | Throw _ \<Rightarrow> Fault
                | Return _ buf \<Rightarrow>
                    (case PopBack (v\<lparr>data := buf\<rparr>) of
                       Return _ (v', ev) \<Rightarrow>
                         (case RawMemory_at (data v') value_pos of
                            None \<Rightarrow> Fault
                          | Some a \<Rightarrow> Return (Addr a) (v', ev))
                     | _ \<Rightarrow> Fault))
         | _ \<Rightarrow> Fault))"

subsection \<open>Assignment\<close>

text \<open>
  Assignment is between two objects; \<^verbatim>\<open>this == &rhs\<close> compares their addresses. The
  objects live in a store from addresses to vectors.
\<close>

type_synonym 'a store = "nat \<rightharpoonup> 'a Vector"

text \<open>
  The loop \<^verbatim>\<open>for (; i < size_ && i < rhs.Size(); i++) data_[i] = rhs[i]\<close>, \<open>k\<close> steps left:
  copy assignment to a constructed slot from a constructed slot of \<open>rhs\<close>.
\<close>

fun assign_loop :: "'a env \<Rightarrow> 'a slot list \<Rightarrow> 'a slot list \<Rightarrow> nat \<Rightarrow> nat \<Rightarrow> (unit, 'a slot list) outcome" where
  "assign_loop E buf rbuf i 0 = Return () buf"
| "assign_loop E buf rbuf i (Suc k) =
     (case (read_slot rbuf i, read_slot buf i) of
        (Some x, Some y) \<Rightarrow>
          if copy_assign_throws E x then Throw buf
          else assign_loop E (buf[i := Live x]) rbuf (Suc i) k
      | _ \<Rightarrow> Fault)"

definition operator_assign :: "'a env \<Rightarrow> 'a store \<Rightarrow> nat \<Rightarrow> nat \<Rightarrow> (nat, 'a store \<times> 'a event list) outcome" where
  "operator_assign E \<sigma> this rhs =
     (if this = rhs then Return this (\<sigma>, [])
      else
        (case (\<sigma> this, \<sigma> rhs) of
           (Some v, Some r) \<Rightarrow>
             if size_v r > Capacity v then
               (case Vector_copy E r of
                  Fault \<Rightarrow> Fault
                | Throw ev \<Rightarrow> Throw (\<sigma>, ev)
                | Return rhs_copy ev \<Rightarrow>
                    (case Swap (v, rhs_copy) of
                       (v', rhs_copy') \<Rightarrow>
                         (case Vector_dtor rhs_copy' of
                            None \<Rightarrow> Fault
                          | Some ev' \<Rightarrow> Return this (\<sigma>(this \<mapsto> v'), ev @ ev'))))
             else
               (let i = min (size_v v) (Size r) in
                case assign_loop E (data v) (data r) 0 i of
                  Fault \<Rightarrow> Fault
                | Throw buf \<Rightarrow> Throw (\<sigma>(this \<mapsto> v\<lparr>data := buf\<rparr>), [])
                | Return _ buf \<Rightarrow>
                    if size_v v < Size r then
                      (case (RawMemory_at (data r) i, RawMemory_at buf i) of
                         (Some s, Some d) \<Rightarrow>
                           (case uninitialized_copy_n E (data r) s (Size r - i) buf d of
                              Fault \<Rightarrow> Fault
                            | Throw (_, buf', ev) \<Rightarrow> Throw (\<sigma>(this \<mapsto> v\<lparr>data := buf'\<rparr>), ev)
                            | Return _ (_, buf', ev) \<Rightarrow>
                                Return this (\<sigma>(this \<mapsto> \<lparr>data = buf', size_v = Size r\<rparr>), ev))
                       | _ \<Rightarrow> Fault)
                    else
                      (case RawMemory_at buf (Size r) of
                         None \<Rightarrow> Fault
                       | Some d \<Rightarrow>
                           (case destroy_n buf d (size_v v - Size r) of
                              None \<Rightarrow> Fault
                            | Some (buf', ev) \<Rightarrow>
                                Return this (\<sigma>(this \<mapsto> \<lparr>data = buf', size_v = Size r\<rparr>), ev))))
         | _ \<Rightarrow> Fault))"

text \<open>Move assignment: \<^verbatim>\<open>if (this != &rhs) Swap(rhs)\<close>.\<close>

definition operator_move_assign :: "'a store \<Rightarrow> nat \<Rightarrow> nat \<Rightarrow> (nat, 'a store) outcome" where
  "operator_move_assign \<sigma> this rhs =
     (if this \<noteq> rhs then
        (case (\<sigma> this, \<sigma> rhs) of
           (Some v, Some r) \<Rightarrow>
             (case Swap (v, r) of (v', r') \<Rightarrow> Return this (\<sigma>(this \<mapsto> v', rhs \<mapsto> r')))
         | _ \<Rightarrow> Fault)
      else Return this \<sigma>)"

section \<open>Sequences and what is observed of them\<close>

text \<open>
  The invariant of the data model: \<open>size \<le> capacity\<close>, the slots below \<open>size\<close> are
  constructed and the slots from \<open>size\<close> on are raw.
\<close>

definition is_live :: "'a slot \<Rightarrow> bool" where
  "is_live s = (s \<noteq> Raw)"

definition Vector_inv :: "'a Vector \<Rightarrow> bool" where
  "Vector_inv v =
     (size_v v \<le> Capacity v \<and> list_all is_live (take (size_v v) (data v))
      \<and> list_all (\<lambda>s. s = Raw) (drop (size_v v) (data v)))"

text \<open>The element sequence: the slots that \<^verbatim>\<open>operator[]\<close> reaches, in order.\<close>

definition elements :: "'a Vector \<Rightarrow> 'a slot list" where
  "elements v = take (size_v v) (data v)"

text \<open>
  An element type of plain integers: nothing throws, \<^verbatim>\<open>T()\<close> is 0, a move copies; four
  bytes each.
\<close>

definition int_env :: "int env" where
  "int_env = \<lparr>nothrow_move_constructible = True, copy_constructible = True, value_init = Some 0,
     copy_throws = (\<lambda>_. False), move_throws = (\<lambda>_. False), copy_assign_throws = (\<lambda>_. False),
     move_assign_throws = (\<lambda>_. False), moved_from = (\<lambda>x. x), alloc_throws = (\<lambda>_. False),
     sizeof_T = 4\<rparr>"


text \<open>A sequence with the elements \<open>xs\<close> and \<open>r\<close> spare raw slots behind them.\<close>

definition sequence :: "'a list \<Rightarrow> nat \<Rightarrow> 'a Vector" where
  "sequence xs r = \<lparr>data = map Live xs @ replicate r Raw, size_v = length xs\<rparr>"

text \<open>The values held by a list of slots, raw slots left out.\<close>

fun values_of :: "'a slot list \<Rightarrow> 'a list" where
  "values_of [] = []"
| "values_of (Raw # ss) = values_of ss"
| "values_of (Live x # ss) = x # values_of ss"

text \<open>What a move leaves in a slot.\<close>

fun moved_slot :: "'a env \<Rightarrow> 'a slot \<Rightarrow> 'a slot" where
  "moved_slot E Raw = Raw"
| "moved_slot E (Live x) = Live (moved_from E x)"

text \<open>Reading a trace: the block sizes allocated, the blocks released, the slots destroyed.\<close>

fun allocated :: "'a event list \<Rightarrow> nat list" where
  "allocated [] = []"
| "allocated (Ev_allocate n # tr) = n # allocated tr"
| "allocated (_ # tr) = allocated tr"

fun released :: "'a event list \<Rightarrow> 'a slot list list" where
  "released [] = []"
| "released (Ev_deallocate b # tr) = b # released tr"
| "released (_ # tr) = released tr"

fun destroyed :: "'a event list \<Rightarrow> 'a slot list" where
  "destroyed [] = []"
| "destroyed (Ev_destroy s # tr) = s # destroyed tr"
| "destroyed (_ # tr) = destroyed tr"

text \<open>
  The relocation policy of \<open>CopyDataRange\<close> (and of the same \<^verbatim>\<open>if constexpr\<close> in
  \<open>EmplaceBack\<close>), and whether relocating a value throws under it.
\<close>

definition relocates_by_move :: "'a env \<Rightarrow> bool" where
  "relocates_by_move E = (nothrow_move_constructible E \<or> \<not> copy_constructible E)"

definition relocation_throws :: "'a env \<Rightarrow> 'a \<Rightarrow> bool" where
  "relocation_throws E x = (if relocates_by_move E then move_throws E x else copy_throws E x)"

text \<open>
  The trait \<^verbatim>\<open>is_nothrow_move_constructible\<close> means what it says: the move constructor
  throws for no value.
\<close>

definition env_wf :: "'a env \<Rightarrow> bool" where
  "env_wf E = (nothrow_move_constructible E \<longrightarrow> (\<forall>x. \<not> move_throws E x))"

text \<open>
  A move-only element type whose move constructor may throw: here it throws for the
  value 2, and a moved-from object holds 0.
\<close>

definition move_only_env :: "int env" where
  "move_only_env = \<lparr>nothrow_move_constructible = False, copy_constructible = False,
     value_init = Some 0,
     copy_throws = (\<lambda>_. False), move_throws = (\<lambda>x. x = 2), copy_assign_throws = (\<lambda>_. False),
     move_assign_throws = (\<lambda>_. False), moved_from = (\<lambda>_. 0), alloc_throws = (\<lambda>_. False),
     sizeof_T = 4\<rparr>"

text \<open>
  A copyable element type whose move constructor is not \<^verbatim>\<open>noexcept\<close>, so that it is
  relocated by copying; copying (constructing or assigning) the value 2 throws.
\<close>

definition throwing_copy_env :: "int env" where
  "throwing_copy_env = \<lparr>nothrow_move_constructible = False, copy_constructible = True,
     value_init = Some 0,
     copy_throws = (\<lambda>x. x = 2), move_throws = (\<lambda>_. False), copy_assign_throws = (\<lambda>x. x = 2),
     move_assign_throws = (\<lambda>_. False), moved_from = (\<lambda>_. 0), alloc_throws = (\<lambda>_. False),
     sizeof_T = 4\<rparr>"

text \<open>\<open>k\<close> successive \<open>PushBack\<close> calls, one per value of the list; \<open>None\<close> when one does not return.\<close>

fun PushBack_all :: "'a env \<Rightarrow> 'a list \<Rightarrow> 'a Vector \<Rightarrow> 'a Vector option" where
  "PushBack_all E [] v = Some v"
| "PushBack_all E (x # xs) v =
     (case PushBack E x v of
        Return _ (v', _) \<Rightarrow> PushBack_all E xs v'
      | _ \<Rightarrow> None)"

text \<open>
  The doubling sequence in the words of the specification: the capacity starts at 0 and
  grows to \<open>max(1, 2 \<times> capacity)\<close> whenever an element is appended at \<open>size = capacity\<close>;
  \<open>doubling_capacity k\<close> is the capacity after \<open>k\<close> appends.
\<close>

fun doubling_capacity :: "nat \<Rightarrow> nat" where
  "doubling_capacity 0 = 0"
| "doubling_capacity (Suc k) =
     (if k = doubling_capacity k then max 1 (2 * doubling_capacity k) else doubling_capacity k)"

section \<open>Properties of the algorithms\<close>

lemma all_live_map: "list_all is_live ss \<Longrightarrow> \<exists>xs. ss = map Live xs"
proof (induction ss)
  case Nil
  then show ?case by simp
next
  case (Cons s ss)
  then obtain xs where "ss = map Live xs" by auto
  moreover from Cons.prems obtain x where "s = Live x"
    by (cases s) (auto simp: is_live_def)
  ultimately have "s # ss = map Live (x # xs)" by simp
  then show ?case by (rule exI)
qed

lemma all_raw_replicate: "list_all (\<lambda>s. s = Raw) ss \<Longrightarrow> ss = replicate (length ss) Raw"
  by (induction ss) auto

lemma Vector_inv_sequence: "Vector_inv (sequence xs r)"
  by (simp add: Vector_inv_def sequence_def Capacity_def list_all_iff is_live_def)

lemma Vector_inv_is_sequence:
  assumes "Vector_inv v"
  shows "\<exists>xs r. v = sequence xs r"
proof -
  from assms have le: "size_v v \<le> length (data v)"
    and lv: "list_all is_live (take (size_v v) (data v))"
    and rw: "list_all (\<lambda>s. s = Raw) (drop (size_v v) (data v))"
    by (simp_all add: Vector_inv_def Capacity_def)
  from lv obtain xs where xs: "take (size_v v) (data v) = map Live xs"
    using all_live_map by blast
  have len: "length xs = size_v v"
    using arg_cong [OF xs, of length] le by simp
  have "data v = take (size_v v) (data v) @ drop (size_v v) (data v)" by simp
  also have "\<dots> = map Live xs @ replicate (length (data v) - size_v v) Raw"
    using xs all_raw_replicate [OF rw] by simp
  finally have "v = sequence xs (length (data v) - size_v v)"
    by (simp add: sequence_def len)
  then show ?thesis by blast
qed

lemma elements_sequence [simp]: "elements (sequence xs r) = map Live xs"
  by (simp add: elements_def sequence_def)

lemma size_sequence [simp]: "size_v (sequence xs r) = length xs"
  by (simp add: sequence_def)

lemma Capacity_sequence [simp]: "Capacity (sequence xs r) = length xs + r"
  by (simp add: sequence_def Capacity_def)

lemma data_sequence: "data (sequence xs r) = map Live xs @ replicate r Raw"
  by (simp add: sequence_def)

lemma read_slot_shape [simp]:
  "length a = i \<Longrightarrow> read_slot (a @ Live x # c) i = Some x"
  by (auto simp: read_slot_def)

lemma read_slot_Raw_shape [simp]:
  "length a = i \<Longrightarrow> read_slot (a @ Raw # c) i = None"
  by (auto simp: read_slot_def)

lemma update_shape [simp]:
  "length a = i \<Longrightarrow> (a @ y # c)[i := z] = a @ z # c"
  by (auto simp: list_update_append)

lemma is_live_simps [simp]: "is_live (Live x)" "\<not> is_live Raw"
  by (simp_all add: is_live_def)

lemma all_live_map_Live [simp]: "list_all is_live (map Live xs)"
  by (induction xs) auto

lemma is_live_moved_slot [simp]: "is_live (moved_slot E s) = is_live s"
  by (cases s) simp_all

lemma all_live_moved [simp]:
  "list_all is_live (map (moved_slot E) ss) = list_all is_live ss"
  "list_all is_live (map (moved_slot E \<circ> Live) xs)"
  by (simp_all add: list_all_iff)

lemma destroy_n_shape:
  "length a = i \<Longrightarrow> length b = n \<Longrightarrow> list_all is_live b \<Longrightarrow>
   destroy_n (a @ b @ c) i n = Some (a @ replicate n Raw @ c, map Ev_destroy b)"
proof (induction b arbitrary: a i n)
  case Nil
  then show ?case by simp
next
  case (Cons y b)
  then obtain m where n: "n = Suc m" and m: "length b = m" by (cases n) auto
  from Cons.prems(3) obtain x where y: "y = Live x" and lb: "list_all is_live b"
    by (cases y) auto
  have "destroy_n ((a @ [Raw]) @ b @ c) (Suc i) m
          = Some ((a @ [Raw]) @ replicate m Raw @ c, map Ev_destroy b)"
    using Cons.prems(1) m lb by (intro Cons.IH) simp_all
  then show ?case
    using Cons.prems(1) by (simp add: n y nth_append)
qed

lemma destroy_n_reaches_raw:
  "length a = i \<Longrightarrow> list_all is_live b \<Longrightarrow>
   destroy_n (a @ b @ Raw # c) i (length b + Suc n) = None"
proof (induction b arbitrary: a i)
  case Nil
  then show ?case by (simp add: nth_append)
next
  case (Cons y b)
  from Cons.prems(2) obtain x where y: "y = Live x" and lb: "list_all is_live b"
    by (cases y) auto
  have "destroy_n ((a @ [Raw]) @ b @ Raw # c) (Suc i) (length b + Suc n) = None"
    using Cons.prems(1) lb by (intro Cons.IH) simp_all
  then show ?case
    using Cons.prems(1) by (simp add: y nth_append)
qed

lemma destroy_n_past_live:
  "list_all is_live b \<Longrightarrow> m = length b + Suc r \<Longrightarrow>
   destroy_n (b @ replicate (Suc r) Raw) 0 m = None"
  using destroy_n_reaches_raw [of "[]" 0 b "replicate r Raw" r] by simp

lemma copy_loop_ok:
  "length spre = s + i \<Longrightarrow> length pre = d + i \<Longrightarrow> length mid = length xs \<Longrightarrow>
   \<forall>x\<in>set xs. \<not> copy_throws E x \<Longrightarrow>
   copy_loop E (spre @ map Live xs @ spost) s (pre @ mid @ post) d i (length xs)
     = Return () (spre @ map Live xs @ spost, pre @ map Live xs @ post, [])"
proof (induction xs arbitrary: spre pre mid i)
  case Nil
  then show ?case by simp
next
  case (Cons x xs)
  then obtain m mid' where mid: "mid = m # mid'" and len: "length mid' = length xs"
    by (cases mid) auto
  have "copy_loop E ((spre @ [Live x]) @ map Live xs @ spost) s ((pre @ [Live x]) @ mid' @ post) d (Suc i) (length xs)
      = Return () ((spre @ [Live x]) @ map Live xs @ spost, (pre @ [Live x]) @ map Live xs @ post, [])"
    using Cons.prems len by (intro Cons.IH) simp_all
  then show ?case
    using Cons.prems by (simp add: mid)
qed

lemma copy_loop_throws:
  "length spre = s + i \<Longrightarrow> length pre = d \<Longrightarrow> length dn = i \<Longrightarrow> length mid = length ys \<Longrightarrow>
   \<forall>y\<in>set ys. \<not> copy_throws E y \<Longrightarrow> copy_throws E x \<Longrightarrow> list_all is_live dn \<Longrightarrow>
   copy_loop E (spre @ map Live ys @ Live x # spost) s (pre @ dn @ mid @ m # post) d i (Suc (length ys + k))
     = Throw (spre @ map Live ys @ Live x # spost,
              pre @ replicate (i + length ys) Raw @ m # post,
              map Ev_destroy dn @ map (\<lambda>y. Ev_destroy (Live y)) ys)"
proof (induction ys arbitrary: spre dn mid i)
  case Nil
  have "destroy_n (pre @ dn @ (m # post)) d i = Some (pre @ replicate i Raw @ (m # post), map Ev_destroy dn)"
    using Nil.prems by (intro destroy_n_shape) simp_all
  then show ?case
    using Nil.prems by simp
next
  case (Cons y ys)
  then obtain m0 mid' where mid: "mid = m0 # mid'" and len: "length mid' = length ys"
    by (cases mid) auto
  have "copy_loop E ((spre @ [Live y]) @ map Live ys @ Live x # spost) s
          (pre @ (dn @ [Live y]) @ mid' @ m # post) d (Suc i) (Suc (length ys + k))
      = Throw ((spre @ [Live y]) @ map Live ys @ Live x # spost,
               pre @ replicate (Suc i + length ys) Raw @ m # post,
               map Ev_destroy (dn @ [Live y]) @ map (\<lambda>y. Ev_destroy (Live y)) ys)"
    using Cons.prems len by (intro Cons.IH) simp_all
  moreover have "(pre @ dn @ m0 # mid' @ m # post)[d + i := Live y] = pre @ dn @ Live y # mid' @ m # post"
    using Cons.prems update_shape [of "pre @ dn" "d + i" m0 "mid' @ m # post" "Live y"] by simp
  ultimately show ?case
    using Cons.prems by (simp add: mid)
qed

lemma move_loop_throws:
  "length spre = s + i \<Longrightarrow> length pre = d \<Longrightarrow> length dn = i \<Longrightarrow> length mid = length ys \<Longrightarrow>
   \<forall>y\<in>set ys. \<not> move_throws E y \<Longrightarrow> move_throws E x \<Longrightarrow> list_all is_live dn \<Longrightarrow>
   move_loop E (spre @ map Live ys @ Live x # spost) s (pre @ dn @ mid @ m # post) d i (Suc (length ys + k))
     = Throw (spre @ map Live (map (moved_from E) ys) @ Live x # spost,
              pre @ replicate (i + length ys) Raw @ m # post,
              map Ev_destroy dn @ map (\<lambda>y. Ev_destroy (Live y)) ys)"
proof (induction ys arbitrary: spre dn mid i)
  case Nil
  have "destroy_n (pre @ dn @ (m # post)) d i = Some (pre @ replicate i Raw @ (m # post), map Ev_destroy dn)"
    using Nil.prems by (intro destroy_n_shape) simp_all
  then show ?case
    using Nil.prems by simp
next
  case (Cons y ys)
  then obtain m0 mid' where mid: "mid = m0 # mid'" and len: "length mid' = length ys"
    by (cases mid) auto
  have "move_loop E ((spre @ [Live (moved_from E y)]) @ map Live ys @ Live x # spost) s
          (pre @ (dn @ [Live y]) @ mid' @ m # post) d (Suc i) (Suc (length ys + k))
      = Throw ((spre @ [Live (moved_from E y)]) @ map Live (map (moved_from E) ys) @ Live x # spost,
               pre @ replicate (Suc i + length ys) Raw @ m # post,
               map Ev_destroy (dn @ [Live y]) @ map (\<lambda>y. Ev_destroy (Live y)) ys)"
    using Cons.prems len by (intro Cons.IH) simp_all
  moreover have "(pre @ dn @ m0 # mid' @ m # post)[d + i := Live y] = pre @ dn @ Live y # mid' @ m # post"
    using Cons.prems update_shape [of "pre @ dn" "d + i" m0 "mid' @ m # post" "Live y"] by simp
  moreover have "(spre @ Live y # map Live ys @ Live x # spost)[s + i := Live (moved_from E y)]
       = spre @ Live (moved_from E y) # map Live ys @ Live x # spost"
    using Cons.prems by simp
  ultimately show ?case
    using Cons.prems by (simp add: mid)
qed

lemma move_loop_ok:
  "length spre = s + i \<Longrightarrow> length pre = d + i \<Longrightarrow> length mid = length xs \<Longrightarrow>
   \<forall>x\<in>set xs. \<not> move_throws E x \<Longrightarrow>
   move_loop E (spre @ map Live xs @ spost) s (pre @ mid @ post) d i (length xs)
     = Return () (spre @ map Live (map (moved_from E) xs) @ spost, pre @ map Live xs @ post, [])"
proof (induction xs arbitrary: spre pre mid i)
  case Nil
  then show ?case by simp
next
  case (Cons x xs)
  then obtain m mid' where mid: "mid = m # mid'" and len: "length mid' = length xs"
    by (cases mid) auto
  have "move_loop E ((spre @ [Live (moved_from E x)]) @ map Live xs @ spost) s
          ((pre @ [Live x]) @ mid' @ post) d (Suc i) (length xs)
      = Return () ((spre @ [Live (moved_from E x)]) @ map Live (map (moved_from E) xs) @ spost,
                   (pre @ [Live x]) @ map Live xs @ post, [])"
    using Cons.prems len by (intro Cons.IH) simp_all
  then show ?case
    using Cons.prems by (simp add: mid)
qed

lemma assign_loop_ok:
  "length pre = i \<Longrightarrow> length rpre = i \<Longrightarrow> length ys = length xs \<Longrightarrow>
   \<forall>x\<in>set xs. \<not> copy_assign_throws E x \<Longrightarrow>
   assign_loop E (pre @ map Live ys @ post) (rpre @ map Live xs @ rpost) i (length xs)
     = Return () (pre @ map Live xs @ post)"
proof (induction xs arbitrary: pre rpre ys i)
  case Nil
  then show ?case by simp
next
  case (Cons x xs)
  then obtain y ys' where ys: "ys = y # ys'" and len: "length ys' = length xs"
    by (cases ys) auto
  have "assign_loop E ((pre @ [Live x]) @ map Live ys' @ post) ((rpre @ [Live x]) @ map Live xs @ rpost)
          (Suc i) (length xs) = Return () ((pre @ [Live x]) @ map Live xs @ post)"
    using Cons.prems len by (intro Cons.IH) simp_all
  then show ?case
    using Cons.prems by (simp add: ys)
qed

lemma assign_loop_throws:
  "length pre = i \<Longrightarrow> length rpre = i \<Longrightarrow> length ys = length xs \<Longrightarrow>
   \<forall>x\<in>set xs. \<not> copy_assign_throws E x \<Longrightarrow> copy_assign_throws E x0 \<Longrightarrow>
   assign_loop E (pre @ map Live ys @ Live y0 # post) (rpre @ map Live xs @ Live x0 # rpost) i
       (Suc (length xs + k))
     = Throw (pre @ map Live xs @ Live y0 # post)"
proof (induction xs arbitrary: pre rpre ys i)
  case Nil
  then show ?case by simp
next
  case (Cons x xs)
  then obtain y ys' where ys: "ys = y # ys'" and len: "length ys' = length xs"
    by (cases ys) auto
  have "assign_loop E ((pre @ [Live x]) @ map Live ys' @ Live y0 # post)
          ((rpre @ [Live x]) @ map Live xs @ Live x0 # rpost) (Suc i) (Suc (length xs + k))
        = Throw ((pre @ [Live x]) @ map Live xs @ Live y0 # post)"
    using Cons.prems len by (intro Cons.IH) simp_all
  then show ?case
    using Cons.prems by (simp add: ys)
qed

lemma move_assign_adjacent_down:
  "length pre = d \<Longrightarrow> \<not> move_assign_throws E y \<Longrightarrow>
   move_assign E (pre @ Live x # Live y # post) d (Suc d)
     = Some (Some (pre @ Live y # Live (moved_from E y) # post))"
  using read_slot_shape [of "pre @ [Live x]" "Suc d" y post]
    update_shape [of "pre @ [Live y]" "Suc d" "Live y" post "Live (moved_from E y)"]
  by (simp add: move_assign_def)

lemma move_assign_adjacent_up:
  "length pre = d \<Longrightarrow> \<not> move_assign_throws E x \<Longrightarrow>
   move_assign E (pre @ Live x # Live y # post) (Suc d) d
     = Some (Some (pre @ Live (moved_from E x) # Live x # post))"
  using read_slot_shape [of "pre @ [Live x]" "Suc d" y post]
    update_shape [of "pre @ [Live x]" "Suc d" "Live y" post "Live x"]
  by (simp add: move_assign_def)

lemma move_range_ok:
  "length pre = d \<Longrightarrow> \<forall>y\<in>set ys. \<not> move_assign_throws E y \<Longrightarrow>
   move_range E (pre @ Live x # map Live ys @ post) (Suc d) d (length ys)
     = Return () (pre @ map Live ys @ Live (last (x # map (moved_from E) ys)) # post)"
proof (induction ys arbitrary: pre x d)
  case Nil
  then show ?case by simp
next
  case (Cons y ys)
  have "move_range E ((pre @ [Live y]) @ Live (moved_from E y) # map Live ys @ post) (Suc (Suc d)) (Suc d) (length ys)
      = Return () ((pre @ [Live y]) @ map Live ys @ Live (last (moved_from E y # map (moved_from E) ys)) # post)"
    using Cons.prems by (intro Cons.IH) simp_all
  then show ?case
    using Cons.prems move_assign_adjacent_down [of pre d E y x "map Live ys @ post"] by simp
qed

lemma move_backward_ok:
  "length pre + length cs = l \<Longrightarrow> \<forall>c\<in>set cs. \<not> move_assign_throws E c \<Longrightarrow>
   move_backward E (pre @ map Live cs @ Live w # post) l (Suc l) (length cs)
     = Return () (pre @ Live (hd (map (moved_from E) cs @ [w])) # map Live cs @ post)"
proof (induction cs arbitrary: w post l rule: rev_induct)
  case Nil
  then show ?case by simp
next
  case (snoc c cs)
  from snoc.prems obtain l' where l: "l = Suc l'" and l': "length pre + length cs = l'"
    by (cases l) auto
  have ma: "move_assign E ((pre @ map Live cs) @ Live c # Live w # post) (Suc l') l'
      = Some (Some ((pre @ map Live cs) @ Live (moved_from E c) # Live c # post))"
    using snoc.prems l' by (intro move_assign_adjacent_up) simp_all
  have "move_backward E (pre @ map Live cs @ Live (moved_from E c) # (Live c # post)) l' (Suc l') (length cs)
      = Return () (pre @ Live (hd (map (moved_from E) cs @ [moved_from E c])) # map Live cs @ (Live c # post))"
    using snoc.prems l' by (intro snoc.IH) simp_all
  then show ?case
    using ma by (simp add: l hd_append)
qed

lemma values_of_map_Live [simp]: "values_of (map Live xs) = xs"
  by (induction xs) auto

lemma values_of_map_Live_comp [simp]: "values_of (map (Live \<circ> f) xs) = map f xs"
  by (induction xs) auto

lemma values_of_replicate_Raw [simp]: "values_of (replicate n Raw) = []"
  by (induction n) auto

lemma values_of_append [simp]: "values_of (a @ b) = values_of a @ values_of b"
  by (induction a rule: values_of.induct) auto

lemma allocated_append [simp]: "allocated (a @ b) = allocated a @ allocated b"
  by (induction a rule: allocated.induct) auto

lemma released_append [simp]: "released (a @ b) = released a @ released b"
  by (induction a rule: released.induct) auto

lemma destroyed_append [simp]: "destroyed (a @ b) = destroyed a @ destroyed b"
  by (induction a rule: destroyed.induct) auto

lemma allocated_Destroy [simp]: "allocated (map Ev_destroy ss) = []"
  by (induction ss) auto

lemma released_Destroy [simp]: "released (map Ev_destroy ss) = []"
  by (induction ss) auto

lemma destroyed_Destroy [simp]: "destroyed (map Ev_destroy ss) = ss"
  by (induction ss) auto

lemma allocated_Deallocate [simp]: "allocated (Deallocate b) = []"
  by (simp add: Deallocate_def)

lemma destroyed_Deallocate [simp]: "destroyed (Deallocate b) = []"
  by (simp add: Deallocate_def)

lemma released_Deallocate [simp]: "released (Deallocate b) = (if b = [] then [] else [b])"
  by (simp add: Deallocate_def)

text \<open>Relocation of all elements of a sequence into a fresh block, when nothing throws.\<close>

lemma CopyDataRange_fresh_ok:
  assumes "\<forall>x\<in>set xs. \<not> relocation_throws E x" "length xs \<le> n"
  shows "CopyDataRange E (map Live xs @ post) 0 (length xs) (replicate n Raw) 0
     = Return () ((if relocates_by_move E then map (moved_slot E) (map Live xs) else map Live xs) @ post,
                  map Live xs @ replicate (n - length xs) Raw, [])"
proof -
  have split: "replicate n (Raw::'a slot) = [] @ replicate (length xs) Raw @ replicate (n - length xs) Raw"
    using assms(2) by (simp add: replicate_add [symmetric])
  show ?thesis
  proof (cases "relocates_by_move E")
    case True
    have "move_loop E ([] @ map Live xs @ post) 0 ([] @ replicate (length xs) Raw @ replicate (n - length xs) Raw) 0 0 (length xs)
       = Return () ([] @ map Live (map (moved_from E) xs) @ post, [] @ map Live xs @ replicate (n - length xs) Raw, [])"
      using assms(1) True by (intro move_loop_ok) (simp_all add: relocation_throws_def)
    then show ?thesis
      using True split
      by (simp add: CopyDataRange_def uninitialized_move_n_def relocates_by_move_def comp_def)
  next
    case False
    have "copy_loop E ([] @ map Live xs @ post) 0 ([] @ replicate (length xs) Raw @ replicate (n - length xs) Raw) 0 0 (length xs)
       = Return () ([] @ map Live xs @ post, [] @ map Live xs @ replicate (n - length xs) Raw, [])"
      using assms(1) False by (intro copy_loop_ok) (simp_all add: relocation_throws_def)
    then show ?thesis
      using False split
      by (simp add: CopyDataRange_def uninitialized_copy_n_def relocates_by_move_def)
  qed
qed

lemma destroy_n_whole:
  "list_all is_live b \<Longrightarrow> destroy_n b 0 (length b) = Some (replicate (length b) Raw, map Ev_destroy b)"
  using destroy_n_shape [of "[]" 0 b "length b" "[]"] by simp

lemma Reserve_sequence_ok:
  assumes "\<forall>x\<in>set xs. \<not> relocation_throws E x" "length xs < n" "\<not> alloc_throws E n"
  shows "Reserve E n (sequence xs 0)
     = Return Void (sequence xs (n - length xs),
         [Ev_allocate n]
         @ map Ev_destroy (if relocates_by_move E then map (moved_slot E) (map Live xs) else map Live xs)
         @ Deallocate (replicate (length xs) Raw))"
proof -
  have "CopyDataRange E (map Live xs @ []) 0 (length xs) (replicate n Raw) 0
     = Return () ((if relocates_by_move E then map (moved_slot E) (map Live xs) else map Live xs) @ [],
                  map Live xs @ replicate (n - length xs) Raw, [])"
    using assms by (intro CopyDataRange_fresh_ok) simp_all
  moreover have "destroy_n (map (moved_slot E) (map Live xs)) 0 (length xs)
      = Some (replicate (length xs) Raw, map Ev_destroy (map (moved_slot E) (map Live xs)))"
    using destroy_n_whole [of "map (moved_slot E) (map Live xs)"] by simp
  moreover have "destroy_n (map Live xs) 0 (length xs)
      = Some (replicate (length xs) Raw, map Ev_destroy (map Live xs))"
    using destroy_n_whole [of "map Live xs"] by simp
  ultimately show ?thesis
    using assms(2,3)
    by (simp add: Reserve_def Allocate_def RawMemory_Swap_def sequence_def Capacity_def)
qed

text \<open>
  With spare capacity the call \<^verbatim>\<open>std::destroy_n(new_data.GetAddress(), new_data.Capacity())\<close>
  of \<open>Reserve\<close> goes past the elements: the destructor runs on a raw slot.
\<close>

lemma Reserve_sequence_spare:
  assumes "\<forall>x\<in>set xs. \<not> relocation_throws E x" "length xs + Suc r < n" "\<not> alloc_throws E n"
  shows "Reserve E n (sequence xs (Suc r)) = Fault"
proof -
  define old where "old = (if relocates_by_move E then map (moved_slot E) (map Live xs) else map Live xs)"
  have live: "list_all is_live old" and len: "length old = length xs"
    by (simp_all add: old_def)
  have "CopyDataRange E (map Live xs @ replicate (Suc r) Raw) 0 (length xs) (replicate n Raw) 0
     = Return () (old @ replicate (Suc r) Raw, map Live xs @ replicate (n - length xs) Raw, [])"
    unfolding old_def using assms by (intro CopyDataRange_fresh_ok) simp_all
  moreover have "destroy_n (old @ replicate (Suc r) Raw) 0 (length xs + Suc r) = None"
    using live len by (intro destroy_n_past_live) simp_all
  ultimately show ?thesis
    using assms(2,3)
    by (simp add: Reserve_def Allocate_def RawMemory_Swap_def sequence_def Capacity_def len
        del: destroy_n.simps)
qed

lemma Reserve_sequence_copy_throws:
  assumes "\<not> relocates_by_move E" "\<forall>y\<in>set ys. \<not> copy_throws E y" "copy_throws E x"
    "length ys + Suc (length zs) + r < n" "\<not> alloc_throws E n"
  shows "Reserve E n (sequence (ys @ x # zs) r)
     = Throw (sequence (ys @ x # zs) r,
         [Ev_allocate n] @ map (\<lambda>y. Ev_destroy (Live y)) ys @ [Ev_deallocate (replicate n Raw)])"
proof -
  obtain k where n: "n = length ys + Suc k"
    using assms(4) by (metis add_Suc_right less_imp_Suc_add add.assoc)
  have "copy_loop E ([] @ map Live ys @ Live x # (map Live zs @ replicate r Raw)) 0
          ([] @ [] @ replicate (length ys) Raw @ Raw # replicate k Raw) 0 0 (Suc (length ys + length zs))
      = Throw ([] @ map Live ys @ Live x # (map Live zs @ replicate r Raw),
               [] @ replicate (0 + length ys) Raw @ Raw # replicate k Raw,
               map Ev_destroy [] @ map (\<lambda>y. Ev_destroy (Live y)) ys)"
    using assms(2,3) by (intro copy_loop_throws) simp_all
  moreover have "replicate n (Raw::'a slot) = replicate (length ys) Raw @ Raw # replicate k Raw"
    by (simp add: n replicate_add [symmetric] replicate_app_Cons_same)
  ultimately show ?thesis
    using assms(1,4,5)
    by (simp add: Reserve_def Allocate_def CopyDataRange_def uninitialized_copy_n_def
        relocates_by_move_def sequence_def Capacity_def Deallocate_def)
qed

text \<open>
  Relocation by moving that fails: the elements moved before the failure stay moved from
  in the original block.
\<close>

lemma Reserve_sequence_move_throws:
  assumes "relocates_by_move E" "\<forall>y\<in>set ys. \<not> move_throws E y" "move_throws E x"
    "length ys + Suc (length zs) + r < n" "\<not> alloc_throws E n"
  shows "Reserve E n (sequence (ys @ x # zs) r)
     = Throw (sequence (map (moved_from E) ys @ x # zs) r,
         [Ev_allocate n] @ map (\<lambda>y. Ev_destroy (Live y)) ys @ [Ev_deallocate (replicate n Raw)])"
proof -
  obtain k where n: "n = length ys + Suc k"
    using assms(4) by (metis add_Suc_right less_imp_Suc_add add.assoc)
  have "move_loop E ([] @ map Live ys @ Live x # (map Live zs @ replicate r Raw)) 0
          ([] @ [] @ replicate (length ys) Raw @ Raw # replicate k Raw) 0 0 (Suc (length ys + length zs))
      = Throw ([] @ map Live (map (moved_from E) ys) @ Live x # (map Live zs @ replicate r Raw),
               [] @ replicate (0 + length ys) Raw @ Raw # replicate k Raw,
               map Ev_destroy [] @ map (\<lambda>y. Ev_destroy (Live y)) ys)"
    using assms(2,3) by (intro move_loop_throws) simp_all
  moreover have "replicate n (Raw::'a slot) = replicate (length ys) Raw @ Raw # replicate k Raw"
    by (simp add: n replicate_add [symmetric] replicate_app_Cons_same)
  ultimately show ?thesis
    using assms(1,4,5)
    by (simp add: Reserve_def Allocate_def CopyDataRange_def uninitialized_move_n_def
        relocates_by_move_def sequence_def Capacity_def Deallocate_def comp_def)
qed

lemma first_throwing:
  assumes "\<exists>x\<in>set xs. P x"
  shows "\<exists>ys x zs. xs = ys @ x # zs \<and> P x \<and> (\<forall>y\<in>set ys. \<not> P y) \<and> ys = takeWhile (\<lambda>y. \<not> P y) xs"
proof -
  from split_list_first_prop [OF assms]
  obtain ys x zs where d1: "xs = ys @ x # zs" and d2: "P x" and d3: "\<forall>y\<in>set ys. \<not> P y"
    by blast
  have "takeWhile (\<lambda>y. \<not> P y) (ys @ x # zs) = takeWhile (\<lambda>y. \<not> P y) ys"
    using d2 by (simp add: takeWhile_tail)
  also have "\<dots> = ys"
    using d3 by (simp add: takeWhile_eq_all_conv)
  finally have d4: "ys = takeWhile (\<lambda>y. \<not> P y) xs"
    unfolding d1 by (rule sym)
  show ?thesis
    by (rule exI [of _ ys], rule exI [of _ x], rule exI [of _ zs]) (simp add: d1 [symmetric] d2 d3 d4 [symmetric])
qed

lemma first_throwing_rest:
  assumes "xs = ys @ x # zs" "ys = takeWhile Q xs"
  shows "dropWhile Q xs = x # zs"
proof -
  have "takeWhile Q xs @ dropWhile Q xs = ys @ x # zs"
    unfolding takeWhile_dropWhile_id by (rule assms(1))
  then show ?thesis
    unfolding assms(2) [symmetric] by simp
qed

lemma allocated_Destroy_comp [simp]: "allocated (map (Ev_destroy \<circ> f) xs) = []"
  by (induction xs) auto

lemma released_Destroy_comp [simp]: "released (map (Ev_destroy \<circ> f) xs) = []"
  by (induction xs) auto

lemma destroyed_Destroy_comp [simp]: "destroyed (map (Ev_destroy \<circ> f) xs) = map f xs"
  by (induction xs) auto

lemma Vector_copy_ok:
  assumes "\<forall>x\<in>set xs. \<not> copy_throws E x" "xs \<noteq> []" "\<not> alloc_throws E (length xs)"
  shows "Vector_copy E (sequence xs r) = Return (sequence xs 0) [Ev_allocate (length xs)]"
proof -
  have "copy_loop E ([] @ map Live xs @ replicate r Raw) 0 ([] @ replicate (length xs) Raw @ []) 0 0 (length xs)
     = Return () ([] @ map Live xs @ replicate r Raw, [] @ map Live xs @ [], [])"
    using assms(1) by (intro copy_loop_ok) simp_all
  then show ?thesis
    using assms(2,3)
    by (simp add: Vector_copy_def Allocate_def uninitialized_copy_n_def sequence_def)
qed

lemma Vector_copy_alloc_throws:
  assumes "xs \<noteq> []" "alloc_throws E (length xs)"
  shows "Vector_copy E (sequence xs r) = Throw []"
  using assms by (simp add: Vector_copy_def Allocate_def sequence_def)

lemma Vector_copy_copy_throws:
  assumes "\<forall>y\<in>set ys. \<not> copy_throws E y" "copy_throws E x"
    "\<not> alloc_throws E (Suc (length ys + length zs))"
  shows "Vector_copy E (sequence (ys @ x # zs) r)
     = Throw ([Ev_allocate (Suc (length ys + length zs))] @ map (\<lambda>y. Ev_destroy (Live y)) ys
              @ [Ev_deallocate (replicate (Suc (length ys + length zs)) Raw)])"
proof -
  have "copy_loop E ([] @ map Live ys @ Live x # (map Live zs @ replicate r Raw)) 0
          ([] @ [] @ replicate (length ys) Raw @ Raw # replicate (length zs) Raw) 0 0 (Suc (length ys + length zs))
      = Throw ([] @ map Live ys @ Live x # (map Live zs @ replicate r Raw),
               [] @ replicate (0 + length ys) Raw @ Raw # replicate (length zs) Raw,
               map Ev_destroy [] @ map (\<lambda>y. Ev_destroy (Live y)) ys)"
    using assms(1,2) by (intro copy_loop_throws) simp_all
  moreover have "replicate (Suc (length ys + length zs)) (Raw::'a slot)
      = replicate (length ys) Raw @ Raw # replicate (length zs) Raw"
    by (simp add: replicate_add [symmetric] replicate_app_Cons_same)
  ultimately show ?thesis
    using assms(3)
    by (simp add: Vector_copy_def Allocate_def uninitialized_copy_n_def sequence_def Deallocate_def)
qed

lemma Vector_dtor_sequence:
  "Vector_dtor (sequence vs rv)
     = Some (map Ev_destroy (map Live vs) @ Deallocate (replicate (length vs + rv) Raw))"
proof -
  have "destroy_n ([] @ map Live vs @ replicate rv Raw) 0 (length vs)
      = Some ([] @ replicate (length vs) Raw @ replicate rv Raw, map Ev_destroy (map Live vs))"
    by (intro destroy_n_shape) simp_all
  then show ?thesis
    by (simp add: Vector_dtor_def sequence_def replicate_add)
qed

lemma Swap_pair: "Swap (a, b) = (b, a)"
  by (simp add: Swap_def RawMemory_Swap_def)

text \<open>The branch of copy assignment that builds a fresh copy.\<close>

lemma assign_fresh_ok:
  assumes "this \<noteq> rhs" "\<sigma> this = Some (sequence vs rv)" "\<sigma> rhs = Some (sequence xs rr)"
    "length vs + rv < length xs" "\<forall>x\<in>set xs. \<not> copy_throws E x" "\<not> alloc_throws E (length xs)"
  shows "operator_assign E \<sigma> this rhs
     = Return this (\<sigma>(this \<mapsto> sequence xs 0),
         [Ev_allocate (length xs)] @ map Ev_destroy (map Live vs) @ Deallocate (replicate (length vs + rv) Raw))"
proof -
  from assms(4) have ne: "xs \<noteq> []" by auto
  show ?thesis
    using assms(1-4) Vector_copy_ok [OF assms(5) ne assms(6), of rr]
    by (simp add: operator_assign_def Swap_pair Vector_dtor_sequence)
qed

lemma assign_fresh_throws:
  assumes "this \<noteq> rhs" "\<sigma> this = Some (sequence vs rv)" "\<sigma> rhs = Some (sequence xs rr)"
    "length vs + rv < length xs" "alloc_throws E (length xs) \<or> (\<exists>x\<in>set xs. copy_throws E x)"
  shows "\<exists>tr. operator_assign E \<sigma> this rhs = Throw (\<sigma>, tr)"
proof (cases "alloc_throws E (length xs)")
  case True
  from assms(4) have ne: "xs \<noteq> []" by auto
  show ?thesis
    using assms(1-4) Vector_copy_alloc_throws [OF ne True, of rr]
    by (simp add: operator_assign_def)
next
  case False
  with assms(5) obtain ys x zs where d: "xs = ys @ x # zs" "copy_throws E x" "\<forall>y\<in>set ys. \<not> copy_throws E y"
    using first_throwing [of xs "copy_throws E"] by blast
  have na: "\<not> alloc_throws E (Suc (length ys + length zs))"
    using False by (simp add: d(1))
  show ?thesis
    using assms(1-4) Vector_copy_copy_throws [OF d(3) d(2) na, of rr]
    by (simp add: operator_assign_def d(1))
qed

lemma assign_loop_prefix_ok:
  assumes "\<forall>x\<in>set (take k xs). \<not> copy_assign_throws E x" "k \<le> length vs" "k \<le> length xs"
  shows "assign_loop E (map Live vs @ post) (map Live xs @ rpost) 0 k
     = Return () (map Live (take k xs) @ map Live (drop k vs) @ post)"
proof -
  have "assign_loop E ([] @ map Live (take k vs) @ (map Live (drop k vs) @ post))
          ([] @ map Live (take k xs) @ (map Live (drop k xs) @ rpost)) 0 (length (take k xs))
      = Return () ([] @ map Live (take k xs) @ (map Live (drop k vs) @ post))"
    using assms by (intro assign_loop_ok) simp_all
  moreover have "map Live vs = map Live (take k vs) @ map Live (drop k vs)"
    "map Live xs = map Live (take k xs) @ map Live (drop k xs)"
    by (simp_all add: map_append [symmetric] del: map_append)
  ultimately show ?thesis
    using assms(3) by (simp add: min_absorb2)
qed

lemma assign_loop_prefix_throws:
  assumes "\<exists>x\<in>set (take k xs). copy_assign_throws E x" "k \<le> length vs" "k \<le> length xs"
  shows "\<exists>buf. assign_loop E (map Live vs @ post) (map Live xs @ rpost) 0 k = Throw buf
            \<and> length buf = length vs + length post"
proof -
  from assms(1) obtain ys x zs where d: "take k xs = ys @ x # zs" "copy_assign_throws E x"
    "\<forall>y\<in>set ys. \<not> copy_assign_throws E y"
    using first_throwing [of "take k xs" "copy_assign_throws E"] by blast
  have k: "k = Suc (length ys + length zs)"
    using arg_cong [OF d(1), of length] assms(3) by (simp add: min_absorb2)
  then have lt: "length ys < length vs" using assms(2) by simp
  have vs: "vs = take (length ys) vs @ vs ! length ys # drop (Suc (length ys)) vs"
    using lt by (rule id_take_nth_drop)
  have "take k xs @ drop k xs = xs" by (rule append_take_drop_id)
  then have xs: "xs = ys @ x # zs @ drop k xs"
    unfolding d(1) by simp
  have "assign_loop E ([] @ map Live (take (length ys) vs) @ Live (vs ! length ys) # (map Live (drop (Suc (length ys)) vs) @ post))
          ([] @ map Live ys @ Live x # (map Live (zs @ drop k xs) @ rpost)) 0 (Suc (length ys + length zs))
      = Throw ([] @ map Live ys @ Live (vs ! length ys) # (map Live (drop (Suc (length ys)) vs) @ post))"
    using d(2,3) lt by (intro assign_loop_throws) simp_all
  moreover have "map Live vs = map Live (take (length ys) vs) @ Live (vs ! length ys) # map Live (drop (Suc (length ys)) vs)"
    by (subst vs) (simp del: append_take_drop_id)
  moreover have "map Live xs = map Live ys @ Live x # map Live (zs @ drop k xs)"
    by (subst xs) simp
  ultimately have e: "assign_loop E (map Live vs @ post) (map Live xs @ rpost) 0 k
      = Throw (map Live ys @ Live (vs ! length ys) # (map Live (drop (Suc (length ys)) vs) @ post))"
    by (simp add: k)
  show ?thesis
    unfolding e using lt by simp
qed

text \<open>Copying the tail of \<open>rhs\<close> behind the assigned prefix.\<close>

lemma copy_tail_ok:
  assumes "\<forall>x\<in>set xs2. \<not> copy_throws E x" "length xs2 \<le> rv"
  shows "uninitialized_copy_n E (map Live xs1 @ map Live xs2 @ rpost) (length xs1) (length xs2)
           (map Live xs1 @ replicate rv Raw) (length xs1)
     = Return () (map Live xs1 @ map Live xs2 @ rpost,
                  map Live xs1 @ map Live xs2 @ replicate (rv - length xs2) Raw, [])"
proof -
  have "copy_loop E (map Live xs1 @ map Live xs2 @ rpost) (length xs1)
          (map Live xs1 @ replicate (length xs2) Raw @ replicate (rv - length xs2) Raw) (length xs1) 0 (length xs2)
     = Return () (map Live xs1 @ map Live xs2 @ rpost,
                  map Live xs1 @ map Live xs2 @ replicate (rv - length xs2) Raw, [])"
    using assms(1) by (intro copy_loop_ok) simp_all
  moreover have "replicate rv (Raw::'a slot) = replicate (length xs2) Raw @ replicate (rv - length xs2) Raw"
    using assms(2) by (simp add: replicate_add [symmetric])
  ultimately show ?thesis
    by (simp add: uninitialized_copy_n_def)
qed

lemma copy_tail_throws:
  assumes "\<exists>x\<in>set xs2. copy_throws E x" "length xs2 \<le> rv"
  shows "\<exists>src buf ev. uninitialized_copy_n E (map Live xs1 @ map Live xs2 @ rpost) (length xs1) (length xs2)
           (map Live xs1 @ replicate rv Raw) (length xs1) = Throw (src, buf, ev)
           \<and> length buf = length xs1 + rv"
proof -
  from assms(1) obtain ys x zs where d: "xs2 = ys @ x # zs" "copy_throws E x"
    "\<forall>y\<in>set ys. \<not> copy_throws E y"
    using first_throwing [of xs2 "copy_throws E"] by blast
  have "length ys < rv"
    using assms(2) by (simp add: d(1))
  then obtain k where rv: "rv = length ys + Suc k"
    using less_imp_Suc_add [of "length ys" rv] by auto
  have "copy_loop E (map Live xs1 @ map Live ys @ Live x # (map Live zs @ rpost)) (length xs1)
          (map Live xs1 @ [] @ replicate (length ys) Raw @ Raw # replicate k Raw) (length xs1) 0
          (Suc (length ys + length zs))
      = Throw (map Live xs1 @ map Live ys @ Live x # (map Live zs @ rpost),
               map Live xs1 @ replicate (0 + length ys) Raw @ Raw # replicate k Raw,
               map Ev_destroy [] @ map (\<lambda>y. Ev_destroy (Live y)) ys)"
    using d(2,3) by (intro copy_loop_throws) simp_all
  moreover have "replicate rv (Raw::'a slot) = replicate (length ys) Raw @ Raw # replicate k Raw"
    by (simp add: rv replicate_add [symmetric] replicate_app_Cons_same)
  ultimately have e: "uninitialized_copy_n E (map Live xs1 @ map Live xs2 @ rpost) (length xs1) (length xs2)
           (map Live xs1 @ replicate rv Raw) (length xs1)
      = Throw (map Live xs1 @ map Live ys @ Live x # (map Live zs @ rpost),
               map Live xs1 @ replicate (length ys) Raw @ Raw # replicate k Raw,
               map (\<lambda>y. Ev_destroy (Live y)) ys)"
    by (simp add: uninitialized_copy_n_def d(1))
  show ?thesis
    unfolding e by (simp add: rv)
qed

text \<open>The branch of copy assignment that reuses the block.\<close>

lemma assign_reuse_assign_throws:
  assumes "this \<noteq> rhs" "\<sigma> this = Some (sequence vs rv)" "\<sigma> rhs = Some (sequence xs rr)"
    "length xs \<le> length vs + rv" "\<exists>x\<in>set (take (length vs) xs). copy_assign_throws E x"
  shows "\<exists>w tr. operator_assign E \<sigma> this rhs = Throw (\<sigma>(this \<mapsto> w), tr)
           \<and> Capacity w = length vs + rv \<and> size_v w = length vs"
proof -
  have "take (min (length vs) (length xs)) xs = take (length vs) xs"
    by (simp add: min_def)
  with assms(5) have "\<exists>x\<in>set (take (min (length vs) (length xs)) xs). copy_assign_throws E x"
    by simp
  then obtain buf where b: "assign_loop E (map Live vs @ replicate rv Raw) (map Live xs @ replicate rr Raw) 0
      (min (length vs) (length xs)) = Throw buf" "length buf = length vs + length (replicate rv (Raw::'a slot))"
    using assign_loop_prefix_throws [of "min (length vs) (length xs)" xs E vs "replicate rv Raw" "replicate rr Raw"]
    by auto
  have "operator_assign E \<sigma> this rhs = Throw (\<sigma>(this \<mapsto> (sequence vs rv)\<lparr>data := buf\<rparr>), [])"
    using assms(1-4) b(1)
    by (simp add: operator_assign_def Size_def data_sequence)
  moreover have "Capacity ((sequence vs rv)\<lparr>data := buf\<rparr>) = length vs + rv"
    "size_v ((sequence vs rv)\<lparr>data := buf\<rparr>) = length vs"
    using b(2) by (simp_all add: Capacity_def sequence_def)
  ultimately show ?thesis by blast
qed

lemma assign_reuse_copy_throws:
  assumes "this \<noteq> rhs" "\<sigma> this = Some (sequence vs rv)" "\<sigma> rhs = Some (sequence xs rr)"
    "length xs \<le> length vs + rv" "\<forall>x\<in>set (take (length vs) xs). \<not> copy_assign_throws E x"
    "\<exists>x\<in>set (drop (length vs) xs). copy_throws E x"
  shows "\<exists>w tr. operator_assign E \<sigma> this rhs = Throw (\<sigma>(this \<mapsto> w), tr)
           \<and> Capacity w = length vs + rv \<and> size_v w = length vs"
proof -
  from assms(6) have lt: "length vs < length xs"
    by (cases "length vs < length xs") auto
  then have m: "min (length vs) (length xs) = length vs" by simp
  have a: "assign_loop E (map Live vs @ replicate rv Raw) (map Live xs @ replicate rr Raw) 0 (length vs)
      = Return () (map Live (take (length vs) xs) @ map Live (drop (length vs) vs) @ replicate rv Raw)"
    using assms(5) lt by (intro assign_loop_prefix_ok) simp_all
  have len: "length (take (length vs) xs) = length vs" "length (drop (length vs) xs) = length xs - length vs"
    using lt by simp_all
  have le: "length (drop (length vs) xs) \<le> rv"
    using assms(4) by simp
  obtain src buf ev where c: "uninitialized_copy_n E
       (map Live (take (length vs) xs) @ map Live (drop (length vs) xs) @ replicate rr Raw)
       (length (take (length vs) xs)) (length (drop (length vs) xs))
       (map Live (take (length vs) xs) @ replicate rv Raw) (length (take (length vs) xs)) = Throw (src, buf, ev)"
    "length buf = length (take (length vs) xs) + rv"
    using copy_tail_throws [OF assms(6) le, of "take (length vs) xs" "replicate rr Raw"] by blast
  have xs: "map Live xs = map Live (take (length vs) xs) @ map Live (drop (length vs) xs)"
    by (simp add: map_append [symmetric] del: map_append)
  have c': "uninitialized_copy_n E (map Live xs @ replicate rr Raw) (length vs) (length xs - length vs)
       (map Live (take (length vs) xs) @ replicate rv Raw) (length vs) = Throw (src, buf, ev)"
    using c(1) unfolding len xs [symmetric] append_assoc [symmetric] by simp
  have "operator_assign E \<sigma> this rhs = Throw (\<sigma>(this \<mapsto> (sequence vs rv)\<lparr>data := buf\<rparr>), ev)"
    using assms(1-4) lt a c'
    by (simp add: operator_assign_def Size_def data_sequence m RawMemory_at_def)
  moreover have "Capacity ((sequence vs rv)\<lparr>data := buf\<rparr>) = length vs + rv"
    "size_v ((sequence vs rv)\<lparr>data := buf\<rparr>) = length vs"
    using c(2) len by (simp_all add: Capacity_def sequence_def)
  ultimately show ?thesis by blast
qed

lemma assign_reuse_grow_ok:
  assumes "this \<noteq> rhs" "\<sigma> this = Some (sequence vs rv)" "\<sigma> rhs = Some (sequence xs rr)"
    "length xs \<le> length vs + rv" "length vs < length xs"
    "\<forall>x\<in>set (take (length vs) xs). \<not> copy_assign_throws E x"
    "\<forall>x\<in>set (drop (length vs) xs). \<not> copy_throws E x"
  shows "operator_assign E \<sigma> this rhs
     = Return this (\<sigma>(this \<mapsto> sequence xs (length vs + rv - length xs)), [])"
proof -
  have m: "min (length vs) (length xs) = length vs" using assms(5) by simp
  have a: "assign_loop E (map Live vs @ replicate rv Raw) (map Live xs @ replicate rr Raw) 0 (length vs)
      = Return () (map Live (take (length vs) xs) @ map Live (drop (length vs) vs) @ replicate rv Raw)"
    using assms(5,6) by (intro assign_loop_prefix_ok) simp_all
  have len: "length (take (length vs) xs) = length vs" "length (drop (length vs) xs) = length xs - length vs"
    using assms(5) by simp_all
  have le: "length (drop (length vs) xs) \<le> rv"
    using assms(4) by simp
  have xs: "map Live xs = map Live (take (length vs) xs) @ map Live (drop (length vs) xs)"
    by (simp add: map_append [symmetric] del: map_append)
  have "uninitialized_copy_n E
       (map Live (take (length vs) xs) @ map Live (drop (length vs) xs) @ replicate rr Raw)
       (length (take (length vs) xs)) (length (drop (length vs) xs))
       (map Live (take (length vs) xs) @ replicate rv Raw) (length (take (length vs) xs))
     = Return () (map Live (take (length vs) xs) @ map Live (drop (length vs) xs) @ replicate rr Raw,
                  map Live (take (length vs) xs) @ map Live (drop (length vs) xs)
                    @ replicate (rv - length (drop (length vs) xs)) Raw, [])"
    using assms(7) le by (rule copy_tail_ok)
  then have c: "uninitialized_copy_n E (map Live xs @ replicate rr Raw) (length vs) (length xs - length vs)
       (map Live (take (length vs) xs) @ replicate rv Raw) (length vs)
     = Return () (map Live xs @ replicate rr Raw,
                  map Live xs @ replicate (rv - (length xs - length vs)) Raw, [])"
    unfolding len xs [symmetric] append_assoc [symmetric] by simp
  have "rv - (length xs - length vs) = length vs + rv - length xs"
    using assms(5) by simp
  then show ?thesis
    using assms(1-5) a c
    by (simp add: operator_assign_def Size_def data_sequence m RawMemory_at_def sequence_def Capacity_def Let_def)
qed

lemma assign_reuse_shrink_ok:
  assumes "this \<noteq> rhs" "\<sigma> this = Some (sequence vs rv)" "\<sigma> rhs = Some (sequence xs rr)"
    "length xs \<le> length vs" "\<forall>x\<in>set xs. \<not> copy_assign_throws E x"
  shows "operator_assign E \<sigma> this rhs
     = Return this (\<sigma>(this \<mapsto> sequence xs (length vs + rv - length xs)),
                    map Ev_destroy (map Live (drop (length xs) vs)))"
proof -
  have m: "min (length vs) (length xs) = length xs" using assms(4) by simp
  have a: "assign_loop E (map Live vs @ replicate rv Raw) (map Live xs @ replicate rr Raw) 0 (length xs)
      = Return () (map Live (take (length xs) xs) @ map Live (drop (length xs) vs) @ replicate rv Raw)"
    using assms(4,5) by (intro assign_loop_prefix_ok) simp_all
  have d: "destroy_n (map Live xs @ map Live (drop (length xs) vs) @ replicate rv Raw) (length xs)
         (length vs - length xs)
      = Some (map Live xs @ replicate (length vs - length xs) Raw @ replicate rv Raw,
              map Ev_destroy (map Live (drop (length xs) vs)))"
    by (intro destroy_n_shape) simp_all
  have "replicate (length vs - length xs) (Raw::'a slot) @ replicate rv Raw
      = replicate (length vs + rv - length xs) Raw"
    using assms(4) by (simp add: replicate_add [symmetric])
  then show ?thesis
    using assms(1-4) a d
    by (simp add: operator_assign_def Size_def data_sequence m RawMemory_at_def sequence_def Capacity_def Let_def)
qed

lemma PopBack_sequence:
  "PopBack (sequence (xs @ [x]) r) = Return Void (sequence xs (Suc r), [Ev_destroy (Live x)])"
proof -
  have "destroy_n (map Live xs @ [Live x] @ replicate r Raw) (length xs) 1
          = Some (map Live xs @ replicate 1 Raw @ replicate r Raw, map Ev_destroy [Live x])"
    by (intro destroy_n_shape) simp_all
  then show ?thesis
    by (simp add: PopBack_def Empty_def sequence_def replicate_app_Cons_same)
qed

lemma PopBack_empty: "PopBack (sequence [] r) = Return Void (sequence [] r, [])"
  by (simp add: PopBack_def Empty_def)

lemma Erase_sequence:
  assumes "\<forall>y\<in>set ys. \<not> move_assign_throws E y"
  shows "Erase E (length xs) (sequence (xs @ x # ys) r)
     = Return (Addr (length xs))
         (sequence (xs @ ys) (Suc r), [Ev_destroy (Live (last (x # map (moved_from E) ys)))])"
proof -
  let ?z = "last (x # map (moved_from E) ys)"
  have mr: "move_range E (map Live xs @ Live x # map Live ys @ replicate r Raw) (Suc (length xs)) (length xs) (length ys)
      = Return () (map Live xs @ map Live ys @ Live ?z # replicate r Raw)"
    using assms by (intro move_range_ok) simp_all
  have "sequence (xs @ x # ys) r\<lparr>data := map Live xs @ map Live ys @ Live ?z # replicate r Raw\<rparr>
      = sequence ((xs @ ys) @ [?z]) r"
    by (simp add: sequence_def)
  then have pb: "PopBack (sequence (xs @ x # ys) r\<lparr>data := map Live xs @ map Live ys @ Live ?z # replicate r Raw\<rparr>)
      = Return Void (sequence (xs @ ys) (Suc r), [Ev_destroy (Live ?z)])"
    by (simp only: PopBack_sequence)
  have "Erase E (length xs) (sequence (xs @ x # ys) r)
      = (case PopBack (sequence (xs @ x # ys) r\<lparr>data := map Live xs @ map Live ys @ Live ?z # replicate r Raw\<rparr>) of
           Return _ (v', ev) \<Rightarrow>
             (case RawMemory_at (data v') (length xs) of None \<Rightarrow> Fault | Some a \<Rightarrow> Return (Addr a) (v', ev))
         | _ \<Rightarrow> Fault)"
    using mr
    by (simp add: Erase_def Empty_def begin_it_def end_it_def RawMemory_at_def data_sequence del: last.simps)
  then show ?thesis
    unfolding pb by (simp add: RawMemory_at_def data_sequence)
qed

text \<open>A position inside a sequence splits its elements.\<close>

lemma split_at_position:
  assumes "pos < length zs"
  shows "zs = take pos zs @ zs ! pos # drop (Suc pos) zs \<and> length (take pos zs) = pos"
  using assms by (simp add: id_take_nth_drop [symmetric])

lemma CopyDataRange_ok:
  assumes "\<forall>x\<in>set xs. \<not> relocation_throws E x" "length spre = s" "length pre = d"
    "length mid = length xs"
  shows "CopyDataRange E (spre @ map Live xs @ spost) s (length xs) (pre @ mid @ post) d
     = Return () (spre @ (if relocates_by_move E then map (moved_slot E) (map Live xs) else map Live xs) @ spost,
                  pre @ map Live xs @ post, [])"
proof (cases "relocates_by_move E")
  case True
  have "move_loop E (spre @ map Live xs @ spost) s (pre @ mid @ post) d 0 (length xs)
     = Return () (spre @ map Live (map (moved_from E) xs) @ spost, pre @ map Live xs @ post, [])"
    using assms True by (intro move_loop_ok) (simp_all add: relocation_throws_def)
  then show ?thesis
    using True by (simp add: CopyDataRange_def uninitialized_move_n_def relocates_by_move_def comp_def)
next
  case False
  have "copy_loop E (spre @ map Live xs @ spost) s (pre @ mid @ post) d 0 (length xs)
     = Return () (spre @ map Live xs @ spost, pre @ map Live xs @ post, [])"
    using assms False by (intro copy_loop_ok) (simp_all add: relocation_throws_def)
  then show ?thesis
    using False by (simp add: CopyDataRange_def uninitialized_copy_n_def relocates_by_move_def)
qed

text \<open>The three paths of \<open>Emplace\<close>, step by step.\<close>

lemma Emplace_growth_steps:
  assumes "size_v v = Capacity v"
    and "Allocate E (if Capacity v = 0 then 1 else 2 * Capacity v) = Some (nd0, ev0)"
    and "read_argument (data v) a = Some x"
    and "placement_new E nd0 pos x = Return () nd1"
    and "CopyDataRange E (data v) 0 pos nd1 0 = Return () (src1, nd2, ev1)"
    and "CopyDataRange E src1 pos (size_v v - pos) nd2 (pos + 1) = Return () (src2, nd3, ev2)"
    and "destroy_n src2 0 (length src2) = Some (old, ev3)"
    and "pos \<le> length nd3"
  shows "Emplace E pos a v
     = Return (Addr pos) (\<lparr>data = nd3, size_v = size_v v + 1\<rparr>, ev0 @ ev1 @ ev2 @ ev3 @ Deallocate old)"
  using assms by (simp add: Emplace_def Let_def begin_it_def RawMemory_Swap_def RawMemory_at_def)

lemma Emplace_append_steps:
  assumes "size_v v \<noteq> Capacity v"
    and "end_it v = Some pos"
    and "read_argument (data v) a = Some x"
    and "placement_new E (data v) pos x = Return () buf"
    and "pos \<le> length buf"
  shows "Emplace E pos a v = Return (Addr pos) (\<lparr>data = buf, size_v = size_v v + 1\<rparr>, [])"
  using assms by (simp add: Emplace_def Let_def begin_it_def RawMemory_at_def)

lemma Emplace_interior_steps:
  assumes "size_v v \<noteq> Capacity v"
    and "end_it v = Some e" and "pos \<noteq> e" and "e \<noteq> 0"
    and "move_construct E (data v) e (e - 1) = Some (Some buf1)"
    and "pos \<le> length buf1" and "\<not> e - 1 < pos"
    and "move_backward E buf1 (e - 1) e (e - 1 - pos) = Return () buf2"
    and "read_argument buf2 a = Some x"
    and "assign_temporary E buf2 pos x = Return () (buf3, ev)"
  shows "Emplace E pos a v = Return (Addr pos) (\<lparr>data = buf3, size_v = size_v v + 1\<rparr>, ev)"
  using assms by (simp add: Emplace_def Let_def begin_it_def RawMemory_at_def)

lemma end_it_sequence [simp]: "end_it (sequence xs r) = Some (length xs)"
  by (simp add: end_it_def begin_it_def RawMemory_at_def sequence_def)

lemma Emplace_sequence_append:
  assumes "read_argument (data (sequence as (Suc r))) a = Some x" "\<not> copy_throws E x"
  shows "Emplace E (length as) a (sequence as (Suc r)) = Return (Addr (length as)) (sequence (as @ [x]) r, [])"
proof -
  have "Emplace E (length as) a (sequence as (Suc r))
      = Return (Addr (length as))
          (\<lparr>data = map Live as @ Live x # replicate r Raw, size_v = size_v (sequence as (Suc r)) + 1\<rparr>, [])"
  proof (rule Emplace_append_steps [where x = x])
    show "size_v (sequence as (Suc r)) \<noteq> Capacity (sequence as (Suc r))" by simp
    show "end_it (sequence as (Suc r)) = Some (length as)" by simp
    show "read_argument (data (sequence as (Suc r))) a = Some x" by (rule assms(1))
    show "placement_new E (data (sequence as (Suc r))) (length as) x
        = Return () (map Live as @ Live x # replicate r Raw)"
      using assms(2) by (simp add: placement_new_def data_sequence)
    show "length as \<le> length (map Live as @ Live x # replicate r Raw)" by simp
  qed
  then show ?thesis by (simp add: sequence_def)
qed

lemma Emplace_sequence_interior:
  assumes "\<not> copy_throws E x" "\<not> move_assign_throws E x" "\<not> move_throws E z"
    "\<forall>c\<in>set cs. \<not> move_assign_throws E c"
    "read_argument (map Live as @ Live (hd (map (moved_from E) cs @ [moved_from E z])) # map Live cs
                      @ (Live z # replicate r Raw)) a = Some x"
  shows "Emplace E (length as) a (sequence (as @ cs @ [z]) (Suc r))
     = Return (Addr (length as)) (sequence (as @ x # cs @ [z]) r, [Ev_destroy (Live (moved_from E x))])"
proof -
  let ?v = "sequence (as @ cs @ [z]) (Suc r)"
  let ?e = "Suc (length as + length cs)"
  let ?j = "hd (map (moved_from E) cs @ [moved_from E z])"
  have d: "data ?v = (map Live as @ map Live cs) @ Live z # Raw # replicate r Raw"
    by (simp add: sequence_def)
  have mc: "move_construct E (data ?v) ?e (?e - 1)
      = Some (Some (map Live as @ map Live cs @ Live (moved_from E z) # Live z # replicate r Raw))"
    unfolding d using assms(3)
      read_slot_shape [of "map Live as @ map Live cs" "length as + length cs" z "Raw # replicate r Raw"]
      update_shape [of "(map Live as @ map Live cs) @ [Live z]" ?e Raw "replicate r Raw" "Live z"]
      update_shape [of "map Live as @ map Live cs" "length as + length cs" "Live z" "Live z # replicate r Raw" "Live (moved_from E z)"]
    by (simp add: move_construct_def)
  have mb: "move_backward E (map Live as @ map Live cs @ Live (moved_from E z) # (Live z # replicate r Raw))
        (length as + length cs) (Suc (length as + length cs)) (length cs)
      = Return () (map Live as @ Live ?j # map Live cs @ (Live z # replicate r Raw))"
    using assms(4) by (intro move_backward_ok) simp_all
  have at: "assign_temporary E (map Live as @ Live ?j # map Live cs @ (Live z # replicate r Raw)) (length as) x
      = Return () (map Live as @ Live x # map Live cs @ (Live z # replicate r Raw), [Ev_destroy (Live (moved_from E x))])"
    using assms(1,2) by (simp add: assign_temporary_def)
  have "Emplace E (length as) a ?v
      = Return (Addr (length as))
          (\<lparr>data = map Live as @ Live x # map Live cs @ (Live z # replicate r Raw), size_v = size_v ?v + 1\<rparr>,
           [Ev_destroy (Live (moved_from E x))])"
  proof (rule Emplace_interior_steps [where e = ?e and x = x])
    show "read_argument (map Live as @ Live ?j # map Live cs @ (Live z # replicate r Raw)) a = Some x"
      by (rule assms(5))
    show "size_v ?v \<noteq> Capacity ?v" by simp
    show "end_it ?v = Some ?e" by simp
    show "length as \<noteq> ?e" by simp
    show "?e \<noteq> 0" by simp
    show "move_construct E (data ?v) ?e (?e - 1)
      = Some (Some (map Live as @ map Live cs @ Live (moved_from E z) # Live z # replicate r Raw))"
      by (rule mc)
    show "length as \<le> length (map Live as @ map Live cs @ Live (moved_from E z) # Live z # replicate r Raw)"
      by simp
    show "\<not> ?e - 1 < length as" by simp
    show "move_backward E (map Live as @ map Live cs @ Live (moved_from E z) # Live z # replicate r Raw)
        (?e - 1) ?e (?e - 1 - length as)
      = Return () (map Live as @ Live ?j # map Live cs @ (Live z # replicate r Raw))"
      using mb by simp
    show "assign_temporary E (map Live as @ Live ?j # map Live cs @ (Live z # replicate r Raw)) (length as) x
      = Return () (map Live as @ Live x # map Live cs @ (Live z # replicate r Raw), [Ev_destroy (Live (moved_from E x))])"
      by (rule at)
  qed
  then show ?thesis by (simp add: sequence_def)
qed

lemma replicate_Raw_split:
  "replicate (Suc (a + b) + k) (Raw::'a slot) = replicate a Raw @ Raw # replicate b Raw @ replicate k Raw"
  by (simp add: replicate_add replicate_app_Cons_same)

lemma Emplace_sequence_growth:
  assumes "\<not> alloc_throws E (Suc (length as + length bs) + k)"
    and "Suc (length as + length bs) + k
           = (if length as + length bs = 0 then 1 else 2 * (length as + length bs))"
    and "\<not> copy_throws E x"
    and "\<forall>y\<in>set as. \<not> relocation_throws E y" and "\<forall>y\<in>set bs. \<not> relocation_throws E y"
    and "read_argument (data (sequence (as @ bs) 0)) a = Some x"
  shows "\<exists>tr. Emplace E (length as) a (sequence (as @ bs) 0)
           = Return (Addr (length as)) (sequence (as @ x # bs) k, tr)"
proof -
  let ?v = "sequence (as @ bs) 0"
  let ?nc = "Suc (length as + length bs) + k"
  let ?A = "if relocates_by_move E then map (moved_slot E) (map Live as) else map Live as"
  let ?B = "if relocates_by_move E then map (moved_slot E) (map Live bs) else map Live bs"
  let ?nd1 = "replicate (length as) Raw @ Live x # replicate (length bs) Raw @ replicate k Raw"
  let ?nd2 = "map Live as @ Live x # replicate (length bs) Raw @ replicate k Raw"
  let ?nd3 = "map Live as @ Live x # map Live bs @ replicate k Raw"
  have lA: "length ?A = length as" by simp
  have cap: "(if Capacity ?v = 0 then 1 else 2 * Capacity ?v) = ?nc"
    using assms(2) by simp
  have al: "Allocate E (if Capacity ?v = 0 then 1 else 2 * Capacity ?v)
      = Some (replicate ?nc Raw, [Ev_allocate ?nc])"
    unfolding cap using assms(1) by (simp add: Allocate_def)
  have c0: "placement_new E (replicate ?nc Raw) (length as) x = Return () ?nd1"
    unfolding replicate_Raw_split using assms(3)
    by (simp add: placement_new_def)
  have c1: "CopyDataRange E ([] @ map Live as @ map Live bs) 0 (length as)
        ([] @ replicate (length as) Raw @ (Live x # replicate (length bs) Raw @ replicate k Raw)) 0
      = Return () ([] @ ?A @ map Live bs, [] @ map Live as @ (Live x # replicate (length bs) Raw @ replicate k Raw), [])"
    using assms(4) by (intro CopyDataRange_ok) simp_all
  have c2: "CopyDataRange E (?A @ map Live bs @ []) (length as) (length bs)
        ((map Live as @ [Live x]) @ replicate (length bs) Raw @ replicate k Raw) (length as + 1)
      = Return () (?A @ ?B @ [], (map Live as @ [Live x]) @ map Live bs @ replicate k Raw, [])"
    using assms(5) lA by (intro CopyDataRange_ok) simp_all
  have "Emplace E (length as) a ?v
      = Return (Addr (length as))
          (\<lparr>data = ?nd3, size_v = size_v ?v + 1\<rparr>,
           [Ev_allocate ?nc] @ [] @ [] @ map Ev_destroy (?A @ ?B) @ Deallocate (replicate (length (?A @ ?B)) Raw))"
  proof (rule Emplace_growth_steps [where ?nd0.0 = "replicate ?nc Raw" and ?nd1.0 = ?nd1
        and ?nd2.0 = ?nd2 and ?src1.0 = "?A @ map Live bs" and ?src2.0 = "?A @ ?B" and x = x])
    show "size_v ?v = Capacity ?v" by simp
    show "read_argument (data ?v) a = Some x" by (rule assms(6))
    show "Allocate E (if Capacity ?v = 0 then 1 else 2 * Capacity ?v)
      = Some (replicate ?nc Raw, [Ev_allocate ?nc])" by (rule al)
    show "placement_new E (replicate ?nc Raw) (length as) x = Return () ?nd1" by (rule c0)
    show "CopyDataRange E (data ?v) 0 (length as) ?nd1 0 = Return () (?A @ map Live bs, ?nd2, [])"
      using c1 by (simp add: data_sequence)
    show "CopyDataRange E (?A @ map Live bs) (length as) (size_v ?v - length as) ?nd2 (length as + 1)
        = Return () (?A @ ?B, ?nd3, [])"
      using c2 by simp
    show "destroy_n (?A @ ?B) 0 (length (?A @ ?B))
        = Some (replicate (length (?A @ ?B)) Raw, map Ev_destroy (?A @ ?B))"
      by (rule destroy_n_whole) simp
    show "length as \<le> length ?nd3" by simp
  qed
  then have "Emplace E (length as) a ?v
      = Return (Addr (length as))
          (sequence (as @ x # bs) k,
           [Ev_allocate ?nc] @ [] @ [] @ map Ev_destroy (?A @ ?B) @ Deallocate (replicate (length (?A @ ?B)) Raw))"
    by (simp add: sequence_def)
  then show ?thesis by (rule exI)
qed

lemma growth_room:
  "\<exists>k. Suc n + k = (if n = 0 then 1 else 2 * n)"
proof (cases n)
  case 0
  then show ?thesis by simp
next
  case (Suc m)
  then have "Suc n + m = (if n = 0 then 1 else 2 * n)" by simp
  then show ?thesis by (rule exI)
qed

text \<open>
  \<open>Emplace\<close> at any position of a sequence, when nothing it does throws. A reference to an
  element of the vector gives that element, except in the interior path, where the
  elements from the position on have been shifted before it is read.
\<close>

lemma read_argument_External [simp]: "read_argument buf (External x) = Some x"
  by (simp add: read_argument_def)

lemma read_argument_Element:
  "i < length xs \<Longrightarrow> read_argument (map Live xs @ post) (Element i) = Some (xs ! i)"
  by (simp add: read_argument_def read_slot_def nth_append)

lemma Emplace_sequence:
  assumes "case a of External x \<Rightarrow> y = x
           | Element i \<Rightarrow> i < length (as @ bs) \<and>
               y = (if r \<noteq> 0 \<and> bs \<noteq> [] then (as @ moved_from E (hd bs) # bs) ! i else (as @ bs) ! i)"
    and "\<not> copy_throws E y" "\<not> move_assign_throws E y"
    and "\<forall>y\<in>set (as @ bs). \<not> copy_throws E y \<and> \<not> move_throws E y \<and> \<not> move_assign_throws E y"
    and "r = 0 \<longrightarrow> \<not> alloc_throws E (if length as + length bs = 0 then 1 else 2 * (length as + length bs))"
  shows "\<exists>r' tr. Emplace E (length as) a (sequence (as @ bs) r)
           = Return (Addr (length as)) (sequence (as @ y # bs) r', tr)"
proof (cases r)
  case 0
  obtain k where k: "Suc (length as + length bs) + k
           = (if length as + length bs = 0 then 1 else 2 * (length as + length bs))"
    using growth_room [of "length as + length bs"] by blast
  have rel: "\<forall>y\<in>set as. \<not> relocation_throws E y" "\<forall>y\<in>set bs. \<not> relocation_throws E y"
    using assms(4) by (simp_all add: relocation_throws_def)
  have na: "\<not> alloc_throws E (Suc (length as + length bs) + k)"
    using assms(5) 0 unfolding k by simp
  have ra: "read_argument (data (sequence (as @ bs) 0)) a = Some y"
  proof (cases a)
    case (External x)
    then show ?thesis using assms(1) by simp
  next
    case (Element i)
    then have "i < length (as @ bs)" "y = (as @ bs) ! i"
      using assms(1) 0 by simp_all
    then show ?thesis
      unfolding Element data_sequence by (simp only: read_argument_Element)
  qed
  from Emplace_sequence_growth [OF na k assms(2) rel ra]
  show ?thesis unfolding 0 by blast
next
  case (Suc r0)
  show ?thesis
  proof (cases bs rule: rev_cases)
    case Nil
    have ra: "read_argument (data (sequence as (Suc r0))) a = Some y"
    proof (cases a)
      case (External x)
      then show ?thesis using assms(1) by simp
    next
      case (Element i)
      then have "i < length as" "y = as ! i"
        using assms(1) Nil by simp_all
      then show ?thesis
        unfolding Element data_sequence by (simp only: read_argument_Element)
    qed
    have "Emplace E (length as) a (sequence as (Suc r0)) = Return (Addr (length as)) (sequence (as @ [y]) r0, [])"
      using ra assms(2) by (rule Emplace_sequence_append)
    then show ?thesis unfolding Suc Nil by auto
  next
    case (snoc cs z)
    let ?j = "hd (map (moved_from E) cs @ [moved_from E z])"
    have j: "?j = moved_from E (hd bs)"
      unfolding snoc by (cases cs) simp_all
    have shape: "map Live as @ Live ?j # map Live cs @ (Live z # replicate r0 Raw)
        = map Live (as @ moved_from E (hd bs) # bs) @ replicate r0 Raw"
      unfolding j by (simp add: snoc)
    have ra: "read_argument (map Live as @ Live ?j # map Live cs @ (Live z # replicate r0 Raw)) a = Some y"
    proof (cases a)
      case (External x)
      then show ?thesis using assms(1) by simp
    next
      case (Element i)
      then have "i < length (as @ moved_from E (hd bs) # bs)" "y = (as @ moved_from E (hd bs) # bs) ! i"
        using assms(1) Suc snoc by simp_all
      then show ?thesis
        unfolding Element shape by (simp only: read_argument_Element)
    qed
    have "Emplace E (length as) a (sequence (as @ cs @ [z]) (Suc r0))
     = Return (Addr (length as)) (sequence (as @ y # cs @ [z]) r0, [Ev_destroy (Live (moved_from E y))])"
      using assms(2-4) ra by (intro Emplace_sequence_interior) (simp_all add: snoc)
    then show ?thesis unfolding Suc snoc by auto
  qed
qed

lemma EmplaceBack_growth_steps:
  assumes "size_v v = Capacity v"
    and "Allocate E (if Capacity v = 0 then 1 else 2 * Capacity v) = Some (nd0, ev0)"
    and "placement_new E nd0 (size_v v) x = Return () nd"
    and "CopyDataRange E (data v) 0 (size_v v) nd 0 = Return () (src, dst, ev1)"
    and "destroy_n src 0 (length src) = Some (old, ev2)"
    and "size_v v \<le> length dst"
  shows "EmplaceBack E x v
     = Return (Addr (size_v v)) (\<lparr>data = dst, size_v = size_v v + 1\<rparr>, ev0 @ ev1 @ ev2 @ Deallocate old)"
  using assms
  by (cases "nothrow_move_constructible E \<or> \<not> copy_constructible E")
    (simp_all add: EmplaceBack_def CopyDataRange_def RawMemory_Swap_def RawMemory_at_def)

lemma EmplaceBack_sequence_spare:
  assumes "\<not> copy_throws E x"
  shows "EmplaceBack E x (sequence xs (Suc r)) = Return (Addr (length xs)) (sequence (xs @ [x]) r, [])"
  using assms
  by (simp add: EmplaceBack_def placement_new_def RawMemory_at_def sequence_def Capacity_def)

lemma EmplaceBack_sequence_growth:
  assumes "\<not> alloc_throws E (Suc (length xs) + k)"
    and "Suc (length xs) + k = (if length xs = 0 then 1 else 2 * length xs)"
    and "\<not> copy_throws E x"
    and "\<forall>y\<in>set xs. \<not> relocation_throws E y"
  shows "\<exists>tr. EmplaceBack E x (sequence xs 0) = Return (Addr (length xs)) (sequence (xs @ [x]) k, tr)"
proof -
  let ?v = "sequence xs 0"
  let ?nc = "Suc (length xs) + k"
  let ?A = "if relocates_by_move E then map (moved_slot E) (map Live xs) else map Live xs"
  let ?nd = "replicate (length xs) Raw @ Live x # replicate k Raw"
  let ?dst = "map Live xs @ Live x # replicate k Raw"
  have cap: "(if Capacity ?v = 0 then 1 else 2 * Capacity ?v) = ?nc"
    using assms(2) by simp
  have al: "Allocate E (if Capacity ?v = 0 then 1 else 2 * Capacity ?v)
      = Some (replicate ?nc Raw, [Ev_allocate ?nc])"
    unfolding cap using assms(1) by (simp add: Allocate_def)
  have sp: "replicate ?nc (Raw::'a slot) = replicate (length xs) Raw @ Raw # replicate k Raw"
    using replicate_Raw_split [of "length xs" 0 k] by simp
  have c0: "placement_new E (replicate ?nc Raw) (length xs) x = Return () ?nd"
    unfolding sp using assms(3) by (simp add: placement_new_def)
  have c1: "CopyDataRange E ([] @ map Live xs @ []) 0 (length xs)
        ([] @ replicate (length xs) Raw @ (Live x # replicate k Raw)) 0
      = Return () ([] @ ?A @ [], [] @ map Live xs @ (Live x # replicate k Raw), [])"
    using assms(4) by (intro CopyDataRange_ok) simp_all
  have "EmplaceBack E x ?v
      = Return (Addr (size_v ?v))
          (\<lparr>data = ?dst, size_v = size_v ?v + 1\<rparr>,
           [Ev_allocate ?nc] @ [] @ map Ev_destroy ?A @ Deallocate (replicate (length ?A) Raw))"
  proof (rule EmplaceBack_growth_steps [where ?nd0.0 = "replicate ?nc Raw" and nd = ?nd and src = ?A])
    show "size_v ?v = Capacity ?v" by simp
    show "Allocate E (if Capacity ?v = 0 then 1 else 2 * Capacity ?v)
      = Some (replicate ?nc Raw, [Ev_allocate ?nc])" by (rule al)
    show "placement_new E (replicate ?nc Raw) (size_v ?v) x = Return () ?nd"
      using c0 by simp
    show "CopyDataRange E (data ?v) 0 (size_v ?v) ?nd 0 = Return () (?A, ?dst, [])"
      using c1 by (simp add: data_sequence)
    show "destroy_n ?A 0 (length ?A) = Some (replicate (length ?A) Raw, map Ev_destroy ?A)"
      by (rule destroy_n_whole) simp
    show "size_v ?v \<le> length ?dst" by simp
  qed
  then have "EmplaceBack E x ?v
      = Return (Addr (length xs))
          (sequence (xs @ [x]) k,
           [Ev_allocate ?nc] @ [] @ map Ev_destroy ?A @ Deallocate (replicate (length ?A) Raw))"
    by (simp add: sequence_def)
  then show ?thesis by (rule exI)
qed

lemma PushBack_of_EmplaceBack:
  "EmplaceBack E x v = Return a s \<Longrightarrow> PushBack E x v = Return Void s"
  by (simp add: PushBack_def)

text \<open>One append to a sequence, when nothing it does throws.\<close>

lemma EmplaceBack_sequence:
  assumes "\<not> copy_throws E x"
    and "r = 0 \<longrightarrow> \<not> alloc_throws E (max 1 (2 * length xs)) \<and> (\<forall>y\<in>set xs. \<not> relocation_throws E y)"
  shows "\<exists>tr. EmplaceBack E x (sequence xs r)
           = Return (Addr (length xs))
               (sequence (xs @ [x]) ((if r = 0 then max 1 (2 * length xs) else length xs + r) - Suc (length xs)), tr)"
proof (cases r)
  case 0
  obtain k where k: "Suc (length xs) + k = (if length xs = 0 then 1 else 2 * length xs)"
    using growth_room [of "length xs"] by blast
  have m: "max 1 (2 * length xs) = Suc (length xs) + k"
    unfolding k by (cases xs) simp_all
  have "\<not> alloc_throws E (Suc (length xs) + k)" "\<forall>y\<in>set xs. \<not> relocation_throws E y"
    using assms(2) 0 unfolding m by simp_all
  from EmplaceBack_sequence_growth [OF this(1) k assms(1) this(2)]
  show ?thesis unfolding 0 m by simp
next
  case (Suc r0)
  from EmplaceBack_sequence_spare [OF assms(1), of xs r0]
  show ?thesis unfolding Suc by simp
qed

subsection \<open>The doubling sequence\<close>

lemma doubling_capacity_ge: "k \<le> doubling_capacity k"
  by (induction k) auto

lemma doubling_capacity_lt: "0 < k \<Longrightarrow> doubling_capacity k < 2 * k"
proof (induction k)
  case 0
  then show ?case by simp
next
  case (Suc k)
  show ?case
  proof (cases "k = 0")
    case True
    then show ?thesis by simp
  next
    case False
    with Suc.IH have "doubling_capacity k < 2 * k" by simp
    then show ?thesis by simp
  qed
qed

lemma doubling_capacity_power: "0 < k \<Longrightarrow> \<exists>j. doubling_capacity k = 2 ^ j"
proof (induction k)
  case 0
  then show ?case by simp
next
  case (Suc k)
  show ?case
  proof (cases "k = 0")
    case True
    have "doubling_capacity (Suc 0) = 2 ^ 0" by simp
    then show ?thesis unfolding True by (rule exI)
  next
    case False
    with Suc.IH obtain j where j: "doubling_capacity k = 2 ^ j" by auto
    show ?thesis
    proof (cases "k = doubling_capacity k")
      case True
      then have "doubling_capacity (Suc k) = 2 ^ Suc j"
        using j False by simp
      then show ?thesis by (rule exI)
    next
      case False
      then have "doubling_capacity (Suc k) = 2 ^ j"
        using j by simp
      then show ?thesis by (rule exI)
    qed
  qed
qed

lemma PushBack_on_track:
  assumes "\<not> copy_throws E x" "\<forall>y\<in>set ys. \<not> relocation_throws E y" "\<forall>n. \<not> alloc_throws E n"
  shows "\<exists>tr. PushBack E x (sequence ys (doubling_capacity (length ys) - length ys))
           = Return Void (sequence (ys @ [x]) (doubling_capacity (Suc (length ys)) - Suc (length ys)), tr)"
proof -
  let ?r = "doubling_capacity (length ys) - length ys"
  have h: "?r = 0 \<longrightarrow> \<not> alloc_throws E (max 1 (2 * length ys)) \<and> (\<forall>y\<in>set ys. \<not> relocation_throws E y)"
    using assms(2,3) by simp
  from EmplaceBack_sequence [OF assms(1) h]
  obtain tr where e: "EmplaceBack E x (sequence ys ?r)
           = Return (Addr (length ys))
               (sequence (ys @ [x]) ((if ?r = 0 then max 1 (2 * length ys) else length ys + ?r) - Suc (length ys)), tr)"
    by blast
  have "(if ?r = 0 then max 1 (2 * length ys) else length ys + ?r) = doubling_capacity (Suc (length ys))"
    using doubling_capacity_ge [of "length ys"] by auto
  with e have "EmplaceBack E x (sequence ys ?r)
           = Return (Addr (length ys))
               (sequence (ys @ [x]) (doubling_capacity (Suc (length ys)) - Suc (length ys)), tr)"
    by simp
  from PushBack_of_EmplaceBack [OF this] show ?thesis by (rule exI)
qed

lemma PushBack_all_on_track:
  assumes "\<forall>x\<in>set xs. \<not> copy_throws E x \<and> \<not> relocation_throws E x"
    "\<forall>y\<in>set ys. \<not> relocation_throws E y" "\<forall>n. \<not> alloc_throws E n"
  shows "PushBack_all E xs (sequence ys (doubling_capacity (length ys) - length ys))
     = Some (sequence (ys @ xs) (doubling_capacity (length (ys @ xs)) - length (ys @ xs)))"
  using assms
proof (induction xs arbitrary: ys)
  case Nil
  then show ?case by simp
next
  case (Cons x xs)
  from Cons.prems have x: "\<not> copy_throws E x" by simp
  from PushBack_on_track [OF x Cons.prems(2,3)]
  obtain tr where p: "PushBack E x (sequence ys (doubling_capacity (length ys) - length ys))
           = Return Void (sequence (ys @ [x]) (doubling_capacity (Suc (length ys)) - Suc (length ys)), tr)"
    by blast
  have "PushBack_all E xs (sequence (ys @ [x]) (doubling_capacity (length (ys @ [x])) - length (ys @ [x])))
     = Some (sequence ((ys @ [x]) @ xs) (doubling_capacity (length ((ys @ [x]) @ xs)) - length ((ys @ [x]) @ xs)))"
    using Cons.prems by (intro Cons.IH) simp_all
  then show ?case
    using p by simp
qed

lemma destroy_n_total:
  assumes "i + n \<le> length buf" "list_all is_live (take n (drop i buf))"
  shows "\<exists>b ev. destroy_n buf i n = Some (b, ev) \<and> length b = length buf"
proof -
  have "destroy_n (take i buf @ take n (drop i buf) @ drop (i + n) buf) i n
      = Some (take i buf @ replicate n Raw @ drop (i + n) buf, map Ev_destroy (take n (drop i buf)))"
    using assms by (intro destroy_n_shape) simp_all
  moreover have "take i buf @ take n (drop i buf) @ drop (i + n) buf = buf"
    by (metis append_take_drop_id drop_drop add.commute)
  moreover have "length (take i buf @ replicate n (Raw::'a slot) @ drop (i + n) buf) = length buf"
    using assms by simp
  ultimately show ?thesis by simp
qed

lemma PopBack_keeps_capacity:
  "\<exists>w tr. PopBack (sequence zs r) = Return Void (w, tr) \<and> Capacity w = length zs + r"
proof (cases zs rule: rev_cases)
  case Nil
  then show ?thesis by (simp add: PopBack_empty)
next
  case (snoc ys y)
  then show ?thesis by (simp add: PopBack_sequence)
qed

lemma Resize_below_capacity:
  assumes "n < length zs + r"
  shows "\<exists>w tr. Resize E n (sequence zs r) = Return Void (w, tr) \<and> Capacity w = length zs + r"
proof -
  have "n + (length zs - n) \<le> length (map Live zs @ replicate r Raw)"
    using assms by simp
  moreover have "list_all is_live (take (length zs - n) (drop n (map Live zs @ replicate r Raw)))"
    by (simp add: drop_map take_map)
  ultimately obtain b ev where d: "destroy_n (map Live zs @ replicate r Raw) n (length zs - n) = Some (b, ev)"
    and l: "length b = length (map Live zs @ replicate r Raw)"
    using destroy_n_total [of n "length zs - n" "map Live zs @ replicate r Raw"] by blast
  have "Resize E n (sequence zs r) = Return Void (\<lparr>data = b, size_v = n\<rparr>, ev)"
    using assms d by (simp add: Resize_def Capacity_def sequence_def)
  moreover have "Capacity \<lparr>data = b, size_v = n\<rparr> = length zs + r"
    using l by (simp add: Capacity_def)
  ultimately show ?thesis by blast
qed

lemma assign_reuse_keeps_capacity:
  assumes "this \<noteq> rhs" "\<sigma> this = Some (sequence vs rv)" "\<sigma> rhs = Some (sequence xs rr)"
    "length xs \<le> length vs + rv"
  shows "\<exists>w tr. (operator_assign E \<sigma> this rhs = Return this (\<sigma>(this \<mapsto> w), tr)
                  \<or> operator_assign E \<sigma> this rhs = Throw (\<sigma>(this \<mapsto> w), tr))
               \<and> Capacity w = length vs + rv"
proof (cases "\<exists>x\<in>set (take (length vs) xs). copy_assign_throws E x")
  case True
  from assign_reuse_assign_throws [OF assms True] show ?thesis by blast
next
  case False
  then have na: "\<forall>x\<in>set (take (length vs) xs). \<not> copy_assign_throws E x" by simp
  show ?thesis
  proof (cases "\<exists>x\<in>set (drop (length vs) xs). copy_throws E x")
    case True
    from assign_reuse_copy_throws [OF assms na True] show ?thesis by blast
  next
    case False
    then have nc: "\<forall>x\<in>set (drop (length vs) xs). \<not> copy_throws E x" by simp
    have c: "Capacity (sequence xs (length vs + rv - length xs)) = length vs + rv"
      using assms(4) by simp
    show ?thesis
    proof (cases "length vs < length xs")
      case True
      from assign_reuse_grow_ok [OF assms True na nc] c show ?thesis by blast
    next
      case False
      then have le': "length xs \<le> length vs" by simp
      then have "take (length vs) xs = xs" by simp
      with na have "\<forall>x\<in>set xs. \<not> copy_assign_throws E x" by simp
      from assign_reuse_shrink_ok [OF assms(1-3) le' this] c show ?thesis by blast
    qed
  qed
qed

section \<open>The claims\<close>

text \<open>
  C1. \<open>Reserve(newCapacity)\<close> with \<open>newCapacity\<close> above the capacity. As stated the claim
  fails for an element type that cannot be copied and whose move constructor may throw:
  such elements are relocated by moving, and when the move of the second element throws,
  the first element of the original block has already been moved from. At this input
  the vector is left holding 0, 2 in place of 1, 2.
\<close>

theorem Reserve_moving_throws_counterexample:
  "Vector_inv (sequence [1::int, 2] 0) \<and> Capacity (sequence [1::int, 2] 0) < 3 \<and>
   Reserve move_only_env 3 (sequence [1, 2] 0)
     = Throw (sequence [0, 2] 0, [Ev_allocate 3, Ev_destroy (Live 1), Ev_deallocate [Raw, Raw, Raw]]) \<and>
   elements (sequence [0::int, 2] 0) \<noteq> elements (sequence [1, 2] 0)"
proof -
  have "Reserve move_only_env 3 (sequence [1, 2] 0)
     = Throw (sequence [0, 2] 0, [Ev_allocate 3, Ev_destroy (Live 1), Ev_deallocate [Raw, Raw, Raw]])"
    by (simp add: Reserve_def Allocate_def CopyDataRange_def move_only_env_def
        uninitialized_move_n_def read_slot_def Deallocate_def sequence_def Capacity_def
        numeral_3_eq_3 numeral_2_eq_2)
  then show ?thesis
    by (simp add: Vector_inv_sequence)
qed

text \<open>
  Apart from that, after the swap \<open>Reserve\<close> calls \<^verbatim>\<open>std::destroy_n\<close> on the old block with
  the old capacity as the count, where the destructor \<^verbatim>\<open>~Vector\<close> uses \<^verbatim>\<open>size_\<close>. With spare
  capacity the destructor is therefore called on the raw slots behind the elements too,
  slots where no object lives: unless the destructor of the element type is trivial, the
  call has undefined behaviour.
\<close>

lemma Reserve_destroys_raw_slots:
  assumes "Vector_inv v" and "size_v v < Capacity v" and "Capacity v < n" and "\<not> alloc_throws E n"
    and "\<forall>x\<in>set (values_of (elements v)). \<not> relocation_throws E x"
  shows "Reserve E n v = Fault"
proof -
  from assms(1) obtain xs r where v: "v = sequence xs r"
    using Vector_inv_is_sequence by blast
  from assms(2) obtain r0 where r: "r = Suc r0"
    by (cases r) (simp_all add: v)
  have "\<forall>x\<in>set xs. \<not> relocation_throws E x" "length xs + Suc r0 < n"
    using assms(3,5) by (simp_all add: v r)
  then show ?thesis
    unfolding v r using assms(4) by (rule Reserve_sequence_spare)
qed

text \<open>
  C1, amended. For a sequence satisfying the invariant, \<open>n\<close> above its capacity, a request
  of \<open>n\<close> elements whose byte count fits \<^verbatim>\<open>size_t\<close>, and an allocation that succeeds.

  \<^item> If the sequence has no spare capacity and relocating no element throws, \<open>Reserve(n)\<close>
    allocates one block of exactly \<open>n\<close> slots, returns with capacity \<open>n\<close>, the same size and
    the same elements (the slots behind them raw), has run the destructor on exactly the
    old elements (in their moved-from state when elements are relocated by moving), and
    has released the old block.

  \<^item> If the elements are relocated by copying and a copy throws, \<open>Reserve\<close> throws with
    the vector exactly as it was; the copies made before the failure have been destroyed
    and the new block, all raw again, released.

  \<^item> If the elements are relocated by moving and a move throws, \<open>Reserve\<close> throws with
    the size, the capacity and the block of the vector as before; the elements before
    the first one whose move throws are left in their moved-from state, the others are
    as they were; the elements moved before the failure have been destroyed in the new
    block, and the new block, all raw again, released.

  \<^item> If the move constructor is \<^verbatim>\<open>noexcept\<close> and the sequence has no spare capacity,
    \<open>Reserve\<close> returns.

  With spare capacity and a relocation that succeeds, the destructor calls on the raw
  slots are reached (\<open>Reserve_destroys_raw_slots\<close>); the amended claim says nothing of
  that case.
\<close>

theorem Reserve_grows:
  assumes "Vector_inv v" and "Capacity v < n" and "request_fits E n" and "\<not> alloc_throws E n"
  shows "(size_v v = Capacity v \<and> (\<forall>x\<in>set (values_of (elements v)). \<not> relocation_throws E x) \<longrightarrow>
           (\<exists>w tr. Reserve E n v = Return Void (w, tr)
              \<and> Capacity w = n \<and> size_v w = size_v v \<and> elements w = elements v \<and> Vector_inv w
              \<and> allocated tr = [n]
              \<and> destroyed tr
                  = (if relocates_by_move E then map (moved_slot E) (elements v) else elements v)
              \<and> released tr = (if Capacity v = 0 then [] else [replicate (Capacity v) Raw])))
       \<and> (\<not> relocates_by_move E \<and> (\<exists>x\<in>set (values_of (elements v)). copy_throws E x) \<longrightarrow>
           (\<exists>tr. Reserve E n v = Throw (v, tr)
              \<and> allocated tr = [n]
              \<and> destroyed tr = map Live (takeWhile (\<lambda>x. \<not> copy_throws E x) (values_of (elements v)))
              \<and> released tr = [replicate n Raw]))
       \<and> (relocates_by_move E \<and> (\<exists>x\<in>set (values_of (elements v)). move_throws E x) \<longrightarrow>
           (\<exists>w tr. Reserve E n v = Throw (w, tr)
              \<and> Capacity w = Capacity v \<and> size_v w = size_v v \<and> Vector_inv w
              \<and> values_of (elements w)
                  = map (moved_from E) (takeWhile (\<lambda>x. \<not> move_throws E x) (values_of (elements v)))
                    @ dropWhile (\<lambda>x. \<not> move_throws E x) (values_of (elements v))
              \<and> allocated tr = [n]
              \<and> destroyed tr = map Live (takeWhile (\<lambda>x. \<not> move_throws E x) (values_of (elements v)))
              \<and> released tr = [replicate n Raw]))
       \<and> (size_v v = Capacity v \<and> env_wf E \<and> nothrow_move_constructible E \<longrightarrow>
           (\<exists>w tr. Reserve E n v = Return Void (w, tr)))"
  (is "(?H1 \<longrightarrow> ?C1) \<and> (?H2 \<longrightarrow> ?C2) \<and> (?H3 \<longrightarrow> ?C3) \<and> (?H4 \<longrightarrow> ?C4)")
proof -
  from assms(1) obtain xs r where v: "v = sequence xs r"
    using Vector_inv_is_sequence by blast
  have n: "length xs + r < n" using assms(2) by (simp add: v)
  have ok: "Reserve E n v = Return Void (sequence xs (n - length xs),
         [Ev_allocate n]
         @ map Ev_destroy (if relocates_by_move E then map (moved_slot E) (map Live xs) else map Live xs)
         @ Deallocate (replicate (length xs) Raw))"
    if "\<forall>x\<in>set xs. \<not> relocation_throws E x" "r = 0"
    unfolding v that(2) using that(1) n assms(4) by (intro Reserve_sequence_ok) (simp_all add: that(2))
  have 1: ?C1 if h: ?H1
  proof -
    from h have "\<forall>x\<in>set xs. \<not> relocation_throws E x" "r = 0" by (simp_all add: v)
    from ok [OF this] show ?thesis
      using n \<open>r = 0\<close> by (simp add: v Vector_inv_sequence del: map_append map_replicate)
  qed
  have 2: ?C2 if h: ?H2
  proof -
    from h have "\<exists>x\<in>set xs. copy_throws E x" by (simp add: v)
    then obtain ys x zs where d: "xs = ys @ x # zs" "copy_throws E x" "\<forall>y\<in>set ys. \<not> copy_throws E y"
      "ys = takeWhile (\<lambda>y. \<not> copy_throws E y) xs"
      using first_throwing [of xs "copy_throws E"] by blast
    have "Reserve E n (sequence (ys @ x # zs) r)
       = Throw (sequence (ys @ x # zs) r,
           [Ev_allocate n] @ map (\<lambda>y. Ev_destroy (Live y)) ys @ [Ev_deallocate (replicate n Raw)])"
      using h d(2,3) n assms(4) by (intro Reserve_sequence_copy_throws) (simp_all add: d(1))
    moreover have "map (\<lambda>y. Ev_destroy (Live y)) ys = map Ev_destroy (map Live ys)" by simp
    ultimately have "Reserve E n v = Throw (v, [Ev_allocate n] @ map Ev_destroy (map Live ys) @ [Ev_deallocate (replicate n Raw)])"
      by (simp add: v d(1))
    then show ?thesis
      using d(4) by (simp add: v)
  qed
  have 3: ?C3 if h: ?H3
  proof -
    from h have "\<exists>x\<in>set xs. move_throws E x" by (simp add: v)
    then obtain ys x zs where d: "xs = ys @ x # zs" "move_throws E x" "\<forall>y\<in>set ys. \<not> move_throws E y"
      "ys = takeWhile (\<lambda>y. \<not> move_throws E y) xs"
      using first_throwing [of xs "move_throws E"] by blast
    have dw: "dropWhile (\<lambda>y. \<not> move_throws E y) xs = x # zs"
      using d(1,4) by (rule first_throwing_rest)
    have "Reserve E n (sequence (ys @ x # zs) r)
       = Throw (sequence (map (moved_from E) ys @ x # zs) r,
           [Ev_allocate n] @ map (\<lambda>y. Ev_destroy (Live y)) ys @ [Ev_deallocate (replicate n Raw)])"
      using h d(2,3) n assms(4) by (intro Reserve_sequence_move_throws) (simp_all add: d(1))
    moreover have "map (\<lambda>y. Ev_destroy (Live y)) ys = map Ev_destroy (map Live ys)" by simp
    ultimately have r: "Reserve E n v = Throw (sequence (map (moved_from E) ys @ x # zs) r,
         [Ev_allocate n] @ map Ev_destroy (map Live ys) @ [Ev_deallocate (replicate n Raw)])"
      by (simp add: v d(1))
    have "Capacity (sequence (map (moved_from E) ys @ x # zs) r) = Capacity v"
      "size_v (sequence (map (moved_from E) ys @ x # zs) r) = size_v v"
      "Vector_inv (sequence (map (moved_from E) ys @ x # zs) r)"
      "values_of (elements (sequence (map (moved_from E) ys @ x # zs) r))
         = map (moved_from E) (takeWhile (\<lambda>x. \<not> move_throws E x) (values_of (elements v)))
           @ dropWhile (\<lambda>x. \<not> move_throws E x) (values_of (elements v))"
      "allocated ([Ev_allocate n] @ map Ev_destroy (map Live ys) @ [Ev_deallocate (replicate n Raw)]) = [n]"
      "destroyed ([Ev_allocate n] @ map Ev_destroy (map Live ys) @ [Ev_deallocate (replicate n Raw)])
         = map Live (takeWhile (\<lambda>x. \<not> move_throws E x) (values_of (elements v)))"
      "released ([Ev_allocate n] @ map Ev_destroy (map Live ys) @ [Ev_deallocate (replicate n Raw)])
         = [replicate n Raw]"
      using d(4) [symmetric] dw by (simp_all add: v Vector_inv_sequence) (simp_all add: d(1))
    with r show ?thesis by blast
  qed
  have 4: ?C4 if h: ?H4
  proof -
    from h have "\<forall>x\<in>set xs. \<not> relocation_throws E x" "r = 0"
      by (simp_all add: env_wf_def relocation_throws_def relocates_by_move_def v)
    from ok [OF this] show ?thesis by blast
  qed
  from 1 2 3 4 show ?thesis by blast
qed

theorem Reserve_grows_witness:
  "Vector_inv (sequence [1::int, 2, 3] 0) \<and> Capacity (sequence [1::int, 2, 3] 0) < 6
   \<and> request_fits int_env 6 \<and> request_fits throwing_copy_env 6 \<and> request_fits move_only_env 6
   \<and> \<not> alloc_throws int_env 6 \<and> \<not> alloc_throws throwing_copy_env 6 \<and> \<not> alloc_throws move_only_env 6
   \<and> size_v (sequence [1::int, 2, 3] 0) = Capacity (sequence [1::int, 2, 3] 0)
   \<and> env_wf int_env \<and> nothrow_move_constructible int_env
   \<and> \<not> relocation_throws int_env 1 \<and> \<not> relocation_throws int_env 2 \<and> \<not> relocation_throws int_env 3
   \<and> \<not> relocates_by_move throwing_copy_env \<and> copy_throws throwing_copy_env 2
   \<and> relocates_by_move move_only_env \<and> move_throws move_only_env 2
   \<and> (\<exists>w tr. Reserve int_env 6 (sequence [1, 2, 3] 0) = Return Void (w, tr)
         \<and> Capacity w = 6 \<and> size_v w = 3 \<and> elements w = [Live 1, Live 2, Live 3]
         \<and> allocated tr = [6] \<and> destroyed tr = [Live 1, Live 2, Live 3]
         \<and> released tr = [[Raw, Raw, Raw]])
   \<and> (\<exists>tr. Reserve throwing_copy_env 6 (sequence [1, 2, 3] 0) = Throw (sequence [1, 2, 3] 0, tr)
         \<and> allocated tr = [6] \<and> destroyed tr = [Live 1]
         \<and> released tr = [[Raw, Raw, Raw, Raw, Raw, Raw]])
   \<and> (\<exists>w tr. Reserve move_only_env 6 (sequence [1, 2, 3] 0) = Throw (w, tr)
         \<and> Capacity w = 3 \<and> size_v w = 3 \<and> values_of (elements w) = [0, 2, 3]
         \<and> allocated tr = [6] \<and> destroyed tr = [Live 1]
         \<and> released tr = [[Raw, Raw, Raw, Raw, Raw, Raw]])"
proof -
  have a: "Vector_inv (sequence [1::int, 2, 3] 0)" by (rule Vector_inv_sequence)
  have b: "Capacity (sequence [1::int, 2, 3] 0) < 6" by simp
  have f: "request_fits int_env 6" "request_fits throwing_copy_env 6" "request_fits move_only_env 6"
    by (simp_all add: request_fits_def size_max_def int_env_def throwing_copy_env_def move_only_env_def)
  have c: "\<not> alloc_throws int_env 6" "\<not> alloc_throws throwing_copy_env 6" "\<not> alloc_throws move_only_env 6"
    by (simp_all add: int_env_def throwing_copy_env_def move_only_env_def)
  have e: "env_wf int_env" "nothrow_move_constructible int_env"
    "relocates_by_move int_env" "\<not> relocates_by_move throwing_copy_env" "relocates_by_move move_only_env"
    "\<And>x. \<not> relocation_throws int_env x" "\<And>x. moved_slot int_env (Live x) = Live x"
    "\<And>x. copy_throws throwing_copy_env x = (x = 2)"
    "\<And>x. move_throws move_only_env x = (x = 2)" "\<And>x. moved_from move_only_env x = 0"
    "\<And>x. \<not> move_throws int_env x" "\<And>x. \<not> copy_throws int_env x"
    by (simp_all add: int_env_def throwing_copy_env_def move_only_env_def env_wf_def
        relocates_by_move_def relocation_throws_def)
  have 1: "\<exists>w tr. Reserve int_env 6 (sequence [1, 2, 3] 0) = Return Void (w, tr)
         \<and> Capacity w = 6 \<and> size_v w = 3 \<and> elements w = [Live 1, Live 2, Live 3]
         \<and> allocated tr = [6] \<and> destroyed tr = [Live 1, Live 2, Live 3]
         \<and> released tr = [[Raw, Raw, Raw]]"
    using Reserve_grows [OF a b f(1) c(1)] e by (simp add: numeral_eq_Suc) blast
  have 2: "\<exists>tr. Reserve throwing_copy_env 6 (sequence [1, 2, 3] 0) = Throw (sequence [1, 2, 3] 0, tr)
         \<and> allocated tr = [6] \<and> destroyed tr = [Live 1]
         \<and> released tr = [[Raw, Raw, Raw, Raw, Raw, Raw]]"
    using Reserve_grows [OF a b f(2) c(2)] e by (simp add: numeral_eq_Suc)
  have 3: "\<exists>w tr. Reserve move_only_env 6 (sequence [1, 2, 3] 0) = Throw (w, tr)
         \<and> Capacity w = 3 \<and> size_v w = 3 \<and> values_of (elements w) = [0, 2, 3]
         \<and> allocated tr = [6] \<and> destroyed tr = [Live 1]
         \<and> released tr = [[Raw, Raw, Raw, Raw, Raw, Raw]]"
    using Reserve_grows [OF a b f(3) c(3)] e by (simp add: numeral_eq_Suc) blast
  show ?thesis
    using a b f c e 1 2 3 by simp
qed

text \<open>
  C2. \<open>Resize(5)\<close> on the contents 1, 2, 3 in a block of capacity 8, the state reached from
  the empty vector by \<open>Reserve(8)\<close> and three \<open>PushBack\<close> calls. The code compares
  \<open>new_size\<close> with the capacity, takes the shrinking branch, destroys nothing and sets
  \<open>size_ = 5\<close>: slots 3 and 4 are counted as elements but stay raw memory, no value was
  constructed there.
\<close>

theorem Resize_below_capacity_leaves_raw:
  "Reserve int_env 8 Vector_default
     = Return Void (\<lparr>data = [Raw, Raw, Raw, Raw, Raw, Raw, Raw, Raw], size_v = 0\<rparr>, [Ev_allocate 8])
   \<and> PushBack_all int_env [1, 2, 3] \<lparr>data = [Raw, Raw, Raw, Raw, Raw, Raw, Raw, Raw], size_v = 0\<rparr>
     = Some \<lparr>data = [Live 1, Live 2, Live 3, Raw, Raw, Raw, Raw, Raw], size_v = 3\<rparr>
   \<and> Resize int_env 5 \<lparr>data = [Live 1, Live 2, Live 3, Raw, Raw, Raw, Raw, Raw], size_v = 3\<rparr>
     = Return Void (\<lparr>data = [Live 1, Live 2, Live 3, Raw, Raw, Raw, Raw, Raw], size_v = 5\<rparr>, [])"
proof -
  have 1: "Reserve int_env 8 Vector_default
     = Return Void (\<lparr>data = [Raw, Raw, Raw, Raw, Raw, Raw, Raw, Raw], size_v = 0\<rparr>, [Ev_allocate 8])"
    by (simp add: Reserve_def Vector_default_def Capacity_def Allocate_def CopyDataRange_def
        int_env_def uninitialized_move_n_def RawMemory_Swap_def Deallocate_def numeral_eq_Suc)
  have 2: "PushBack_all int_env [1, 2, 3] \<lparr>data = [Raw, Raw, Raw, Raw, Raw, Raw, Raw, Raw], size_v = 0\<rparr>
     = Some \<lparr>data = [Live 1, Live 2, Live 3, Raw, Raw, Raw, Raw, Raw], size_v = 3\<rparr>"
    by (simp add: PushBack_def EmplaceBack_def Capacity_def placement_new_def int_env_def RawMemory_at_def)
  have 3: "Resize int_env 5 \<lparr>data = [Live 1, Live 2, Live 3, Raw, Raw, Raw, Raw, Raw], size_v = 3\<rparr>
     = Return Void (\<lparr>data = [Live 1, Live 2, Live 3, Raw, Raw, Raw, Raw, Raw], size_v = 5\<rparr>, [])"
    by (simp add: Resize_def Capacity_def)
  from 1 2 3 show ?thesis by (intro conjI)
qed

text \<open>
  C3. Copy assignment between two different objects that satisfy the invariant.
  When \<open>rhs.size\<close> exceeds the capacity of the destination, a fresh copy is built and
  swapped in: if the allocation or the copy of an element throws, the assignment throws
  and the store, so the destination, is exactly as before; otherwise the destination has
  the elements and the size of \<open>rhs\<close>, and the old elements have been destroyed.
  When \<open>rhs.size\<close> fits, the block is reused (same capacity): the first
  \<open>min(size, rhs.size)\<close> positions are overwritten by copy assignment and the further
  elements of \<open>rhs\<close> are copy-constructed, so the call throws exactly when one of those
  assignments or constructions does (size and capacity are then unchanged); otherwise
  the destination has the elements and the size of \<open>rhs\<close>, and the destructor has run on
  exactly the surplus elements from position \<open>rhs.size\<close> on.
\<close>

theorem copy_assignment:
  assumes "this \<noteq> rhs" and "\<sigma> this = Some v" and "\<sigma> rhs = Some r"
    and "Vector_inv v" and "Vector_inv r"
  shows "(Capacity v < size_v r \<longrightarrow>
           (if alloc_throws E (size_v r) \<or> (\<exists>x\<in>set (values_of (elements r)). copy_throws E x)
            then \<exists>tr. operator_assign E \<sigma> this rhs = Throw (\<sigma>, tr)
            else \<exists>w tr. operator_assign E \<sigma> this rhs = Return this (\<sigma>(this \<mapsto> w), tr)
                   \<and> elements w = elements r \<and> size_v w = size_v r \<and> Vector_inv w
                   \<and> destroyed tr = elements v))
       \<and> (size_v r \<le> Capacity v \<longrightarrow>
           (if (\<exists>x\<in>set (take (size_v v) (values_of (elements r))). copy_assign_throws E x)
               \<or> (\<exists>x\<in>set (drop (size_v v) (values_of (elements r))). copy_throws E x)
            then \<exists>w tr. operator_assign E \<sigma> this rhs = Throw (\<sigma>(this \<mapsto> w), tr)
                   \<and> Capacity w = Capacity v \<and> size_v w = size_v v
            else \<exists>w. operator_assign E \<sigma> this rhs
                     = Return this (\<sigma>(this \<mapsto> w), map Ev_destroy (drop (size_v r) (elements v)))
                   \<and> elements w = elements r \<and> size_v w = size_v r \<and> Vector_inv w
                   \<and> Capacity w = Capacity v))"
    (is "(_ \<longrightarrow> ?F) \<and> (_ \<longrightarrow> ?G)")
proof -
  from assms(4) obtain vs rv where v: "v = sequence vs rv"
    using Vector_inv_is_sequence by blast
  from assms(5) obtain xs rr where r: "r = sequence xs rr"
    using Vector_inv_is_sequence by blast
  note st = assms(2) [unfolded v] assms(3) [unfolded r]
  let ?A = "operator_assign E \<sigma> this rhs"
  have fresh_ok: "\<exists>w tr. ?A = Return this (\<sigma>(this \<mapsto> w), tr)
                   \<and> elements w = elements r \<and> size_v w = size_v r \<and> Vector_inv w
                   \<and> destroyed tr = elements v"
    if lt: "length vs + rv < length xs"
      and no: "\<not> (alloc_throws E (length xs) \<or> (\<exists>x\<in>set xs. copy_throws E x))"
  proof -
    have "?A = Return this (\<sigma>(this \<mapsto> sequence xs 0),
         [Ev_allocate (length xs)] @ map Ev_destroy (map Live vs) @ Deallocate (replicate (length vs + rv) Raw))"
      using assign_fresh_ok [OF assms(1) st lt] no by simp
    moreover have "destroyed ([Ev_allocate (length xs)] @ map Ev_destroy (map Live vs)
          @ Deallocate (replicate (length vs + rv) Raw)) = map Live vs"
      unfolding destroyed_append destroyed_Destroy by simp
    ultimately have "?A = Return this (\<sigma>(this \<mapsto> sequence xs 0),
         [Ev_allocate (length xs)] @ map Ev_destroy (map Live vs) @ Deallocate (replicate (length vs + rv) Raw))
         \<and> elements (sequence xs 0) = elements r \<and> size_v (sequence xs 0) = size_v r
         \<and> Vector_inv (sequence xs 0)
         \<and> destroyed ([Ev_allocate (length xs)] @ map Ev_destroy (map Live vs)
              @ Deallocate (replicate (length vs + rv) Raw)) = elements v"
      by (simp add: Vector_inv_sequence v r)
    then show ?thesis by (intro exI)
  qed
  have reuse_ok: "\<exists>w. ?A = Return this (\<sigma>(this \<mapsto> w), map Ev_destroy (drop (size_v r) (elements v)))
                   \<and> elements w = elements r \<and> size_v w = size_v r \<and> Vector_inv w
                   \<and> Capacity w = Capacity v"
    if le: "length xs \<le> length vs + rv"
      and na: "\<not> (\<exists>x\<in>set (take (length vs) xs). copy_assign_throws E x)"
      and nc: "\<not> (\<exists>x\<in>set (drop (length vs) xs). copy_throws E x)"
  proof -
    have res: "?A = Return this (\<sigma>(this \<mapsto> sequence xs (length vs + rv - length xs)),
                         map Ev_destroy (drop (length xs) (map Live vs)))"
    proof (cases "length vs < length xs")
      case True
      then show ?thesis
        using assign_reuse_grow_ok [OF assms(1) st le True] na nc by simp
    next
      case False
      then have le': "length xs \<le> length vs" by simp
      then have "take (length vs) xs = xs" by simp
      with na have "\<forall>x\<in>set xs. \<not> copy_assign_throws E x" by simp
      from assign_reuse_shrink_ok [OF assms(1) st le' this] show ?thesis
        by (simp add: drop_map)
    qed
    have "?A = Return this (\<sigma>(this \<mapsto> sequence xs (length vs + rv - length xs)),
                         map Ev_destroy (drop (size_v r) (elements v)))
          \<and> elements (sequence xs (length vs + rv - length xs)) = elements r
          \<and> size_v (sequence xs (length vs + rv - length xs)) = size_v r
          \<and> Vector_inv (sequence xs (length vs + rv - length xs))
          \<and> Capacity (sequence xs (length vs + rv - length xs)) = Capacity v"
      using res le by (simp add: Vector_inv_sequence v r)
    then show ?thesis by (intro exI)
  qed
  have reuse_throws: "\<exists>w tr. ?A = Throw (\<sigma>(this \<mapsto> w), tr) \<and> Capacity w = Capacity v \<and> size_v w = size_v v"
    if le: "length xs \<le> length vs + rv"
      and th: "(\<exists>x\<in>set (take (length vs) xs). copy_assign_throws E x)
               \<or> (\<exists>x\<in>set (drop (length vs) xs). copy_throws E x)"
  proof (cases "\<exists>x\<in>set (take (length vs) xs). copy_assign_throws E x")
    case True
    from assign_reuse_assign_throws [OF assms(1) st le True] show ?thesis
      by (simp add: v)
  next
    case False
    then have na: "\<forall>x\<in>set (take (length vs) xs). \<not> copy_assign_throws E x" by simp
    from False th have "\<exists>x\<in>set (drop (length vs) xs). copy_throws E x" by simp
    from assign_reuse_copy_throws [OF assms(1) st le na this] show ?thesis
      by (simp add: v)
  qed
  have F: ?F if c: "Capacity v < size_v r"
  proof -
    from c have lt: "length vs + rv < length xs" by (simp add: v r)
    show ?thesis
    proof (cases "alloc_throws E (length xs) \<or> (\<exists>x\<in>set xs. copy_throws E x)")
      case True
      from assign_fresh_throws [OF assms(1) st lt True] True show ?thesis
        by (simp add: r)
    next
      case False
      from fresh_ok [OF lt False] False show ?thesis
        by (simp add: r)
    qed
  qed
  have G: ?G if c: "size_v r \<le> Capacity v"
  proof -
    from c have le: "length xs \<le> length vs + rv" by (simp add: v r)
    show ?thesis
    proof (cases "(\<exists>x\<in>set (take (length vs) xs). copy_assign_throws E x)
               \<or> (\<exists>x\<in>set (drop (length vs) xs). copy_throws E x)")
      case True
      from reuse_throws [OF le True] True show ?thesis
        by (simp add: v r)
    next
      case False
      then have na: "\<not> (\<exists>x\<in>set (take (length vs) xs). copy_assign_throws E x)"
        and nc: "\<not> (\<exists>x\<in>set (drop (length vs) xs). copy_throws E x)" by simp_all
      from reuse_ok [OF le na nc] False show ?thesis
        by (simp add: v r)
    qed
  qed
  from F G show ?thesis by blast
qed

theorem copy_assignment_witness:
  "(0::nat) \<noteq> 1
   \<and> Vector_inv (sequence [1::int, 2, 3] 0) \<and> Vector_inv (sequence [4::int, 5, 6, 7] 0)
   \<and> Vector_inv (sequence [4::int, 2, 6, 7] 0) \<and> Vector_inv (sequence [1::int, 2, 3] 2)
   \<and> Vector_inv (sequence [8::int] 0)
   \<and> Capacity (sequence [1::int, 2, 3] 0) < size_v (sequence [4::int, 5, 6, 7] 0)
   \<and> size_v (sequence [8::int] 0) \<le> Capacity (sequence [1::int, 2, 3] 2)
   \<and> size_v (sequence [4::int, 5, 6, 7] 0) \<le> Capacity (sequence [1::int, 2, 3] 2)
   \<and> (\<exists>w tr. operator_assign int_env [0 \<mapsto> sequence [1, 2, 3] 0, 1 \<mapsto> sequence [4, 5, 6, 7] 0] 0 1
          = Return 0 ([0 \<mapsto> sequence [1, 2, 3] 0, 1 \<mapsto> sequence [4, 5, 6, 7] 0](0 \<mapsto> w), tr)
        \<and> elements w = [Live 4, Live 5, Live 6, Live 7] \<and> size_v w = 4
        \<and> destroyed tr = [Live 1, Live 2, Live 3])
   \<and> (\<exists>tr. operator_assign throwing_copy_env [0 \<mapsto> sequence [1, 2, 3] 0, 1 \<mapsto> sequence [4, 2, 6, 7] 0] 0 1
          = Throw ([0 \<mapsto> sequence [1, 2, 3] 0, 1 \<mapsto> sequence [4, 2, 6, 7] 0], tr))
   \<and> (\<exists>w. operator_assign int_env [0 \<mapsto> sequence [1, 2, 3] 2, 1 \<mapsto> sequence [8] 0] 0 1
          = Return 0 ([0 \<mapsto> sequence [1, 2, 3] 2, 1 \<mapsto> sequence [8] 0](0 \<mapsto> w), [Ev_destroy (Live 2), Ev_destroy (Live 3)])
        \<and> elements w = [Live 8] \<and> size_v w = 1 \<and> Capacity w = 5)
   \<and> (\<exists>w. operator_assign int_env [0 \<mapsto> sequence [1, 2, 3] 2, 1 \<mapsto> sequence [4, 5, 6, 7] 0] 0 1
          = Return 0 ([0 \<mapsto> sequence [1, 2, 3] 2, 1 \<mapsto> sequence [4, 5, 6, 7] 0](0 \<mapsto> w), [])
        \<and> elements w = [Live 4, Live 5, Live 6, Live 7] \<and> size_v w = 4 \<and> Capacity w = 5)
   \<and> (\<exists>w tr. operator_assign throwing_copy_env [0 \<mapsto> sequence [1, 2, 3] 2, 1 \<mapsto> sequence [4, 2, 6, 7] 0] 0 1
          = Throw ([0 \<mapsto> sequence [1, 2, 3] 2, 1 \<mapsto> sequence [4, 2, 6, 7] 0](0 \<mapsto> w), tr)
        \<and> Capacity w = 5 \<and> size_v w = 3)"
proof -
  have ne: "(0::nat) \<noteq> 1" by simp
  have e: "\<And>n. \<not> alloc_throws int_env n" "\<And>x. \<not> copy_throws int_env x"
    "\<And>x. \<not> copy_assign_throws int_env x"
    "\<And>n. \<not> alloc_throws throwing_copy_env n" "\<And>x. copy_throws throwing_copy_env x = (x = 2)"
    "\<And>x. copy_assign_throws throwing_copy_env x = (x = 2)"
    by (simp_all add: int_env_def throwing_copy_env_def)
  have i: "Vector_inv (sequence [1::int, 2, 3] 0)" "Vector_inv (sequence [4::int, 5, 6, 7] 0)"
    "Vector_inv (sequence [4::int, 2, 6, 7] 0)" "Vector_inv (sequence [1::int, 2, 3] 2)"
    "Vector_inv (sequence [8::int] 0)"
    by (rule Vector_inv_sequence)+
  have 1: "\<exists>w tr. operator_assign int_env [0 \<mapsto> sequence [1, 2, 3] 0, 1 \<mapsto> sequence [4, 5, 6, 7] 0] 0 1
          = Return 0 ([0 \<mapsto> sequence [1, 2, 3] 0, 1 \<mapsto> sequence [4, 5, 6, 7] 0](0 \<mapsto> w), tr)
        \<and> elements w = [Live 4, Live 5, Live 6, Live 7] \<and> size_v w = 4
        \<and> destroyed tr = [Live 1, Live 2, Live 3]"
    using copy_assignment [OF ne _ _ i(1) i(2),
        of "[0 \<mapsto> sequence [1, 2, 3] 0, 1 \<mapsto> sequence [4, 5, 6, 7] 0]" int_env] e
    by (simp add: numeral_eq_Suc) blast
  have 2: "\<exists>tr. operator_assign throwing_copy_env [0 \<mapsto> sequence [1, 2, 3] 0, 1 \<mapsto> sequence [4, 2, 6, 7] 0] 0 1
          = Throw ([0 \<mapsto> sequence [1, 2, 3] 0, 1 \<mapsto> sequence [4, 2, 6, 7] 0], tr)"
    using copy_assignment [OF ne _ _ i(1) i(3),
        of "[0 \<mapsto> sequence [1, 2, 3] 0, 1 \<mapsto> sequence [4, 2, 6, 7] 0]" throwing_copy_env] e
    by simp
  have 3: "\<exists>w. operator_assign int_env [0 \<mapsto> sequence [1, 2, 3] 2, 1 \<mapsto> sequence [8] 0] 0 1
          = Return 0 ([0 \<mapsto> sequence [1, 2, 3] 2, 1 \<mapsto> sequence [8] 0](0 \<mapsto> w), [Ev_destroy (Live 2), Ev_destroy (Live 3)])
        \<and> elements w = [Live 8] \<and> size_v w = 1 \<and> Capacity w = 5"
    using copy_assignment [OF ne _ _ i(4) i(5),
        of "[0 \<mapsto> sequence [1, 2, 3] 2, 1 \<mapsto> sequence [8] 0]" int_env] e
    by (simp add: numeral_eq_Suc) blast
  have 4: "\<exists>w. operator_assign int_env [0 \<mapsto> sequence [1, 2, 3] 2, 1 \<mapsto> sequence [4, 5, 6, 7] 0] 0 1
          = Return 0 ([0 \<mapsto> sequence [1, 2, 3] 2, 1 \<mapsto> sequence [4, 5, 6, 7] 0](0 \<mapsto> w), [])
        \<and> elements w = [Live 4, Live 5, Live 6, Live 7] \<and> size_v w = 4 \<and> Capacity w = 5"
    using copy_assignment [OF ne _ _ i(4) i(2),
        of "[0 \<mapsto> sequence [1, 2, 3] 2, 1 \<mapsto> sequence [4, 5, 6, 7] 0]" int_env] e
    by (simp add: numeral_eq_Suc) blast
  have 5: "\<exists>w tr. operator_assign throwing_copy_env [0 \<mapsto> sequence [1, 2, 3] 2, 1 \<mapsto> sequence [4, 2, 6, 7] 0] 0 1
          = Throw ([0 \<mapsto> sequence [1, 2, 3] 2, 1 \<mapsto> sequence [4, 2, 6, 7] 0](0 \<mapsto> w), tr)
        \<and> Capacity w = 5 \<and> size_v w = 3"
    using copy_assignment [OF ne _ _ i(4) i(3),
        of "[0 \<mapsto> sequence [1, 2, 3] 2, 1 \<mapsto> sequence [4, 2, 6, 7] 0]" throwing_copy_env] e
    by (simp add: numeral_eq_Suc)
  show ?thesis
    using ne i 1 2 3 4 5 by simp
qed

text \<open>
  C4. For a sequence satisfying the invariant, a position \<open>pos \<le> size\<close> and an argument
  that is a value outside the vector or a reference to one of its elements, when none of
  the element operations involved throws and the allocation of the grown block (needed
  only when the sequence is full) succeeds: \<open>Insert(pos, x)\<close> returns the address of slot
  \<open>pos\<close> with one element inserted there, the elements before and behind it being those
  from before the call, and \<open>Erase(pos)\<close> right after it returns with exactly the size and
  the element sequence from before the \<open>Insert\<close>.

  The inserted element \<open>y\<close> is the value of the argument at the moment the code reads it.
  For a value outside the vector that is the value itself. A reference to the element at
  index \<open>i\<close> gives that element when the block grows or the position is the end. When
  the elements are shifted inside the block (spare capacity and \<open>pos\<close> below the size),
  the reference is read after the shift, and gives what is at index \<open>i\<close> then: the element
  itself below \<open>pos\<close>, the moved-from element at \<open>pos\<close>, the former element \<open>i - 1\<close> above
  \<open>pos\<close>. So \<^verbatim>\<open>v.Insert(v.begin(), v[2])\<close> on 1, 2, 3 with spare capacity gives 2, 1, 2, 3.
\<close>

theorem Insert_then_Erase_restores:
  assumes "Vector_inv v" and "pos \<le> size_v v"
    and "case a of
           External x \<Rightarrow> y = x
         | Element i \<Rightarrow> i < size_v v \<and>
             y = (if size_v v \<noteq> Capacity v \<and> pos \<noteq> size_v v
                  then (take pos (values_of (elements v))
                          @ moved_from E (values_of (elements v) ! pos)
                          # drop pos (values_of (elements v))) ! i
                  else values_of (elements v) ! i)"
    and "\<not> copy_throws E y" and "\<not> move_assign_throws E y"
    and "\<forall>z\<in>set (values_of (elements v)).
           \<not> copy_throws E z \<and> \<not> move_throws E z \<and> \<not> move_assign_throws E z"
    and "size_v v = Capacity v \<longrightarrow> \<not> alloc_throws E (if Capacity v = 0 then 1 else 2 * Capacity v)"
  shows "\<exists>v1 tr1 v2 tr2. Insert E pos a v = Return (Addr pos) (v1, tr1)
           \<and> elements v1 = take pos (elements v) @ Live y # drop pos (elements v)
           \<and> Erase E pos v1 = Return (Addr pos) (v2, tr2)
           \<and> size_v v2 = size_v v \<and> elements v2 = elements v"
proof -
  from assms(1) obtain zs r where v: "v = sequence zs r"
    using Vector_inv_is_sequence by blast
  define as bs where "as = take pos zs" and "bs = drop pos zs"
  have zs: "zs = as @ bs" and la: "length as = pos"
    using assms(2) by (simp_all add: as_def bs_def v)
  have arg: "case a of External x \<Rightarrow> y = x
           | Element i \<Rightarrow> i < length (as @ bs) \<and>
               y = (if r \<noteq> 0 \<and> bs \<noteq> [] then (as @ moved_from E (hd bs) # bs) ! i else (as @ bs) ! i)"
  proof (cases a)
    case (External x)
    then show ?thesis using assms(3) by simp
  next
    case (Element i)
    have y: "y = (if size_v v \<noteq> Capacity v \<and> pos \<noteq> size_v v
                  then (take pos (values_of (elements v))
                          @ moved_from E (values_of (elements v) ! pos)
                          # drop pos (values_of (elements v))) ! i
                  else values_of (elements v) ! i)"
      using assms(3) unfolding Element by (simp only: argument.case)
    have sv: "size_v v = length zs" "Capacity v = length zs + r" "values_of (elements v) = zs"
      by (simp_all add: v)
    have "i < size_v v"
      using assms(3) unfolding Element by (simp only: argument.case)
    then have i: "i < length zs"
      unfolding sv .
    show ?thesis
    proof (cases "r \<noteq> 0 \<and> bs \<noteq> []")
      case True
      then have pl: "pos < length zs"
        by (simp add: bs_def)
      have hb: "hd bs = zs ! pos"
        unfolding bs_def using pl by (rule hd_drop_conv_nth)
      have c: "size_v v \<noteq> Capacity v \<and> pos \<noteq> size_v v"
        unfolding sv using True pl by simp
      have "y = (take pos zs @ moved_from E (zs ! pos) # drop pos zs) ! i"
        using y c unfolding sv by simp
      then have "y = (as @ moved_from E (zs ! pos) # bs) ! i"
        unfolding as_def bs_def .
      then have "y = (as @ moved_from E (hd bs) # bs) ! i"
        unfolding hb .
      moreover have "i < length (as @ bs)"
        using i unfolding zs [symmetric] .
      ultimately show ?thesis
        using True by (simp only: Element argument.case if_True simp_thms)
    next
      case False
      then have "r = 0 \<or> pos = length zs"
        using assms(2) by (auto simp: bs_def v)
      then have c: "\<not> (size_v v \<noteq> Capacity v \<and> pos \<noteq> size_v v)"
        unfolding sv by auto
      have "y = zs ! i"
        using y c unfolding sv(3) by simp
      then have "y = (as @ bs) ! i"
        unfolding zs [symmetric] .
      moreover have "i < length (as @ bs)"
        using i unfolding zs [symmetric] .
      ultimately show ?thesis
        using False by (simp only: Element argument.case if_False simp_thms)
    qed
  qed
  have nt: "\<forall>y\<in>set (as @ bs). \<not> copy_throws E y \<and> \<not> move_throws E y \<and> \<not> move_assign_throws E y"
    using assms(6) by (simp add: v zs)
  have al: "r = 0 \<longrightarrow> \<not> alloc_throws E (if length as + length bs = 0 then 1 else 2 * (length as + length bs))"
    using assms(7) by (simp add: v zs cong: if_cong)
  from Emplace_sequence [OF arg assms(4,5) nt al]
  obtain r' tr where em: "Emplace E (length as) a (sequence (as @ bs) r)
           = Return (Addr (length as)) (sequence (as @ y # bs) r', tr)"
    by blast
  have nb: "\<forall>y\<in>set bs. \<not> move_assign_throws E y"
    using nt by simp
  note er = Erase_sequence [OF nb, of as y r']
  have "Insert E pos a v = Return (Addr pos) (sequence (as @ y # bs) r', tr)
           \<and> elements (sequence (as @ y # bs) r') = take pos (elements v) @ Live y # drop pos (elements v)
           \<and> Erase E pos (sequence (as @ y # bs) r')
               = Return (Addr pos) (sequence (as @ bs) (Suc r'), [Ev_destroy (Live (last (y # map (moved_from E) bs)))])
           \<and> size_v (sequence (as @ bs) (Suc r')) = size_v v
           \<and> elements (sequence (as @ bs) (Suc r')) = elements v"
    using em er la
    by (simp add: Insert_def v zs del: last.simps)
  then show ?thesis by (intro exI)
qed


theorem Insert_then_Erase_restores_witness:
  "Vector_inv (sequence [1::int, 2, 3] 0) \<and> Vector_inv (sequence [1::int, 2, 3] 2)
   \<and> (1::nat) \<le> size_v (sequence [1::int, 2, 3] 0) \<and> (0::nat) \<le> size_v (sequence [1::int, 2, 3] 2)
   \<and> (2::nat) < size_v (sequence [1::int, 2, 3] 2)
   \<and> \<not> copy_throws int_env 9 \<and> \<not> move_assign_throws int_env 9
   \<and> \<not> copy_throws int_env 1 \<and> \<not> move_throws int_env 1 \<and> \<not> move_assign_throws int_env 1
   \<and> \<not> copy_throws int_env 2 \<and> \<not> move_throws int_env 2 \<and> \<not> move_assign_throws int_env 2
   \<and> \<not> copy_throws int_env 3 \<and> \<not> move_throws int_env 3 \<and> \<not> move_assign_throws int_env 3
   \<and> size_v (sequence [1::int, 2, 3] 0) = Capacity (sequence [1::int, 2, 3] 0)
   \<and> \<not> alloc_throws int_env 6
   \<and> size_v (sequence [1::int, 2, 3] 2) \<noteq> Capacity (sequence [1::int, 2, 3] 2)
   \<and> (\<exists>v1 tr1 v2 tr2. Insert int_env 1 (External 9) (sequence [1, 2, 3] 0) = Return (Addr 1) (v1, tr1)
         \<and> elements v1 = [Live 1, Live 9, Live 2, Live 3]
         \<and> Erase int_env 1 v1 = Return (Addr 1) (v2, tr2)
         \<and> size_v v2 = 3 \<and> elements v2 = [Live 1, Live 2, Live 3])
   \<and> (\<exists>v1 tr1 v2 tr2. Insert int_env 0 (Element 2) (sequence [1, 2, 3] 2) = Return (Addr 0) (v1, tr1)
         \<and> elements v1 = [Live 2, Live 1, Live 2, Live 3]
         \<and> Erase int_env 0 v1 = Return (Addr 0) (v2, tr2)
         \<and> size_v v2 = 3 \<and> elements v2 = [Live 1, Live 2, Live 3])"
proof -
  have i: "Vector_inv (sequence [1::int, 2, 3] 0)" "Vector_inv (sequence [1::int, 2, 3] 2)"
    by (rule Vector_inv_sequence)+
  have p: "(1::nat) \<le> size_v (sequence [1::int, 2, 3] 0)" "(0::nat) \<le> size_v (sequence [1::int, 2, 3] 2)"
    by simp_all
  have e: "\<And>x. \<not> copy_throws int_env x" "\<And>x. \<not> move_throws int_env x"
    "\<And>x. \<not> move_assign_throws int_env x" "\<And>n. \<not> alloc_throws int_env n"
    "\<And>x. moved_from int_env x = x"
    by (simp_all add: int_env_def)
  have h: "\<forall>y\<in>set (values_of (elements (sequence [1::int, 2, 3] r))).
           \<not> copy_throws int_env y \<and> \<not> move_throws int_env y \<and> \<not> move_assign_throws int_env y" for r
    using e by simp
  have a: "size_v (sequence [1::int, 2, 3] r) = Capacity (sequence [1::int, 2, 3] r)
      \<longrightarrow> \<not> alloc_throws int_env (if Capacity (sequence [1::int, 2, 3] r) = 0 then 1
                                       else 2 * Capacity (sequence [1::int, 2, 3] r))" for r
    using e by simp
  have x: "case External 9 of
           External x \<Rightarrow> (9::int) = x
         | Element i \<Rightarrow> i < size_v (sequence [1::int, 2, 3] 0) \<and>
             9 = (if size_v (sequence [1::int, 2, 3] 0) \<noteq> Capacity (sequence [1::int, 2, 3] 0)
                      \<and> 1 \<noteq> size_v (sequence [1::int, 2, 3] 0)
                  then (take 1 (values_of (elements (sequence [1::int, 2, 3] 0)))
                          @ moved_from int_env (values_of (elements (sequence [1::int, 2, 3] 0)) ! 1)
                          # drop 1 (values_of (elements (sequence [1::int, 2, 3] 0)))) ! i
                  else values_of (elements (sequence [1::int, 2, 3] 0)) ! i)"
    by simp
  have y: "case Element 2 of
           External x \<Rightarrow> (2::int) = x
         | Element i \<Rightarrow> i < size_v (sequence [1::int, 2, 3] 2) \<and>
             2 = (if size_v (sequence [1::int, 2, 3] 2) \<noteq> Capacity (sequence [1::int, 2, 3] 2)
                      \<and> 0 \<noteq> size_v (sequence [1::int, 2, 3] 2)
                  then (take 0 (values_of (elements (sequence [1::int, 2, 3] 2)))
                          @ moved_from int_env (values_of (elements (sequence [1::int, 2, 3] 2)) ! 0)
                          # drop 0 (values_of (elements (sequence [1::int, 2, 3] 2)))) ! i
                  else values_of (elements (sequence [1::int, 2, 3] 2)) ! i)"
    using e(5) by (simp add: numeral_2_eq_2)
  have 1: "\<exists>v1 tr1 v2 tr2. Insert int_env 1 (External 9) (sequence [1, 2, 3] 0) = Return (Addr 1) (v1, tr1)
         \<and> elements v1 = [Live 1, Live 9, Live 2, Live 3]
         \<and> Erase int_env 1 v1 = Return (Addr 1) (v2, tr2)
         \<and> size_v v2 = 3 \<and> elements v2 = [Live 1, Live 2, Live 3]"
    using Insert_then_Erase_restores [OF i(1) p(1) x e(1) e(3) h a]
    by (simp add: numeral_eq_Suc)
  have 2: "\<exists>v1 tr1 v2 tr2. Insert int_env 0 (Element 2) (sequence [1, 2, 3] 2) = Return (Addr 0) (v1, tr1)
         \<and> elements v1 = [Live 2, Live 1, Live 2, Live 3]
         \<and> Erase int_env 0 v1 = Return (Addr 0) (v2, tr2)
         \<and> size_v v2 = 3 \<and> elements v2 = [Live 1, Live 2, Live 3]"
    using Insert_then_Erase_restores [OF i(2) p(2) y e(1) e(3) h a]
    by (simp add: numeral_eq_Suc)
  show ?thesis
    using i p e 1 2 by simp
qed

text \<open>
  C5. \<open>Erase(pos)\<close> on a non-empty sequence satisfying the invariant, at a position
  \<open>pos < size\<close>, when no move assignment of the shifted elements throws: the elements
  behind \<open>pos\<close> move one slot to the left, the destructor runs once, on the vacated last
  slot (which holds the erased element itself when it was the last, and the moved-from
  last element otherwise), the size goes down by one and the capacity stays. The call
  returns the address of slot \<open>pos\<close>: that is \<open>end()\<close> when the last element was erased,
  and otherwise the slot \<^verbatim>\<open>operator[]\<close> gives for \<open>pos\<close>, now holding the former successor.
\<close>

theorem Erase_shifts_left:
  assumes "Vector_inv v" and "pos < size_v v"
    and "\<forall>y\<in>set (values_of (drop (Suc pos) (elements v))). \<not> move_assign_throws E y"
  shows "\<exists>w. Erase E pos v
               = Return (Addr pos)
                   (w, [Ev_destroy (if Suc pos = size_v v then elements v ! pos
                                 else moved_slot E (last (elements v)))])
            \<and> elements w = take pos (elements v) @ drop (Suc pos) (elements v)
            \<and> size_v w = size_v v - 1 \<and> Capacity w = Capacity v \<and> Vector_inv w
            \<and> (if Suc pos = size_v v then end_it w = Some pos
               else operator_index w pos = Some pos \<and> elements w ! pos = elements v ! Suc pos)"
proof -
  from assms(1) obtain zs r where v: "v = sequence zs r"
    using Vector_inv_is_sequence by blast
  from assms(2) have pos: "pos < length zs" by (simp add: v)
  define xs x ys where "xs = take pos zs" and "x = zs ! pos" and "ys = drop (Suc pos) zs"
  have zs: "zs = xs @ x # ys" and lx: "length xs = pos"
    using split_at_position [OF pos] by (simp_all add: xs_def x_def ys_def)
  have ly: "length ys = length zs - Suc pos" by (simp add: ys_def)
  have nt: "\<forall>y\<in>set ys. \<not> move_assign_throws E y"
    using assms(3) by (simp add: v ys_def drop_map)
  let ?w = "sequence (xs @ ys) (Suc r)"
  have er: "Erase E pos v = Return (Addr pos) (?w, [Ev_destroy (Live (last (x # map (moved_from E) ys)))])"
    using Erase_sequence [OF nt, of xs x r] by (simp add: v zs lx del: last.simps)
  have tr: "Live (last (x # map (moved_from E) ys))
      = (if Suc pos = size_v v then elements v ! pos else moved_slot E (last (elements v)))"
  proof (cases "ys = []")
    case True
    then have "Suc pos = length zs" using zs lx by simp
    then show ?thesis using True pos by (simp add: v x_def)
  next
    case False
    then have "Suc pos \<noteq> length zs" using ly by auto
    moreover have "last zs = last ys" using False by (simp add: zs)
    moreover have "zs \<noteq> []" using pos by auto
    ultimately show ?thesis
      using False by (simp add: v last_map)
  qed
  have el: "elements ?w = take pos (elements v) @ drop (Suc pos) (elements v)"
    by (simp add: v xs_def ys_def take_map drop_map)
  have sz: "size_v ?w = size_v v - 1" "Capacity ?w = Capacity v"
    using pos by (simp_all add: v zs)
  have ret: "if Suc pos = size_v v then end_it ?w = Some pos
       else operator_index ?w pos = Some pos \<and> elements ?w ! pos = elements v ! Suc pos"
  proof (cases "Suc pos = size_v v")
    case True
    then have "ys = []" using ly by (simp add: v)
    then have "end_it ?w = Some pos"
      using lx by (simp add: end_it_def begin_it_def RawMemory_at_def sequence_def)
    with True show ?thesis by simp
  next
    case False
    then have lt: "Suc pos < length zs" using pos by (simp add: v)
    then have ne: "ys \<noteq> []" using ly by auto
    have "operator_index ?w pos = Some pos"
      using lx ne by (simp add: operator_index_def RawMemory_at_def sequence_def)
    moreover have "(xs @ ys) ! pos = zs ! Suc pos"
      using lx lt by (simp add: nth_append ys_def)
    then have "map Live (xs @ ys) ! pos = Live (zs ! Suc pos)"
      using lx ne by (simp del: map_append)
    then have "elements ?w ! pos = elements v ! Suc pos"
      using lt by (simp add: v del: map_append)
    ultimately show ?thesis using False by simp
  qed
  have "Erase E pos v
               = Return (Addr pos)
                   (?w, [Ev_destroy (if Suc pos = size_v v then elements v ! pos
                                 else moved_slot E (last (elements v)))])
            \<and> elements ?w = take pos (elements v) @ drop (Suc pos) (elements v)
            \<and> size_v ?w = size_v v - 1 \<and> Capacity ?w = Capacity v \<and> Vector_inv ?w
            \<and> (if Suc pos = size_v v then end_it ?w = Some pos
               else operator_index ?w pos = Some pos \<and> elements ?w ! pos = elements v ! Suc pos)"
    using er tr el sz ret Vector_inv_sequence [of "xs @ ys" "Suc r"] by simp
  then show ?thesis by (rule exI)
qed

theorem Erase_shifts_left_witness:
  "Vector_inv (sequence [1::int, 9, 2, 3] 0)
   \<and> (1::nat) < size_v (sequence [1::int, 9, 2, 3] 0) \<and> (3::nat) < size_v (sequence [1::int, 9, 2, 3] 0)
   \<and> \<not> move_assign_throws int_env 2 \<and> \<not> move_assign_throws int_env 3
   \<and> (\<exists>w. Erase int_env 1 (sequence [1, 9, 2, 3] 0) = Return (Addr 1) (w, [Ev_destroy (Live 3)])
         \<and> elements w = [Live 1, Live 2, Live 3] \<and> size_v w = 3 \<and> Capacity w = 4
         \<and> operator_index w 1 = Some 1 \<and> elements w ! 1 = Live 2)
   \<and> (\<exists>w. Erase int_env 3 (sequence [1, 9, 2, 3] 0) = Return (Addr 3) (w, [Ev_destroy (Live 3)])
         \<and> elements w = [Live 1, Live 9, Live 2] \<and> size_v w = 3 \<and> Capacity w = 4
         \<and> end_it w = Some 3)"
proof -
  have i: "Vector_inv (sequence [1::int, 9, 2, 3] 0)" by (rule Vector_inv_sequence)
  have p: "(1::nat) < size_v (sequence [1::int, 9, 2, 3] 0)" "(3::nat) < size_v (sequence [1::int, 9, 2, 3] 0)"
    by simp_all
  have e: "\<And>x. \<not> move_assign_throws int_env x" "\<And>x. moved_from int_env x = x"
    by (simp_all add: int_env_def)
  have 1: "\<exists>w. Erase int_env 1 (sequence [1, 9, 2, 3] 0) = Return (Addr 1) (w, [Ev_destroy (Live 3)])
         \<and> elements w = [Live 1, Live 2, Live 3] \<and> size_v w = 3 \<and> Capacity w = 4
         \<and> operator_index w 1 = Some 1 \<and> elements w ! 1 = Live 2"
    using Erase_shifts_left [OF i p(1), of int_env] e
    by (simp add: numeral_eq_Suc) blast
  have 2: "\<exists>w. Erase int_env 3 (sequence [1, 9, 2, 3] 0) = Return (Addr 3) (w, [Ev_destroy (Live 3)])
         \<and> elements w = [Live 1, Live 9, Live 2] \<and> size_v w = 3 \<and> Capacity w = 4
         \<and> end_it w = Some 3"
    using Erase_shifts_left [OF i p(2), of int_env] e
    by (simp add: numeral_eq_Suc) blast
  show ?thesis
    using i p e 1 2 by simp
qed

text \<open>
  C6. As stated the claim fails in its last part: \<open>PushBack\<close> is declared \<^verbatim>\<open>void\<close> and returns
  nothing; the reference to the new element is what \<open>EmplaceBack\<close> returns.
\<close>

theorem PushBack_returns_nothing_counterexample:
  "PushBack int_env 7 Vector_default = Return Void (sequence [7] 0, [Ev_allocate 1])
   \<and> EmplaceBack int_env 7 Vector_default = Return (Addr 0) (sequence [7] 0, [Ev_allocate 1])"
proof -
  have "EmplaceBack int_env 7 Vector_default = Return (Addr 0) (sequence [7] 0, [Ev_allocate 1])"
    by (simp add: EmplaceBack_def Vector_default_def Capacity_def Allocate_def placement_new_def
        int_env_def uninitialized_move_n_def RawMemory_Swap_def RawMemory_at_def Deallocate_def
        sequence_def)
  then show ?thesis
    by (simp add: PushBack_def)
qed

text \<open>
  C6, amended. Starting from the empty sequence, \<open>k\<close> successive \<open>PushBack\<close> calls, none of
  which throws, all return, and then the size is \<open>k\<close>, the elements are the values pushed,
  in order, and the capacity is the \<open>k\<close>-th member of the doubling sequence 0, 1, 2, 4,
  8, \<dots> (growth to \<open>max(1, 2 \<times> capacity)\<close> whenever \<open>size = capacity\<close>): for \<open>k > 0\<close> the power
  of two with \<open>k \<le> capacity < 2k\<close>; so \<open>capacity \<ge> size\<close>. Each append constructs the new
  element at position \<open>size\<close> and increments \<open>size\<close>; \<open>EmplaceBack\<close> returns the address of
  the new element (the one \<^verbatim>\<open>operator[]\<close> gives for the old \<open>size\<close>), \<open>PushBack\<close> does the same
  to the sequence and returns nothing.
\<close>

theorem PushBack_capacity_doubles:
  "((\<forall>x\<in>set xs. \<not> copy_throws E x \<and> \<not> relocation_throws E x) \<and> (\<forall>n. \<not> alloc_throws E n) \<longrightarrow>
      (\<exists>w. PushBack_all E xs Vector_default = Some w \<and> size_v w = length xs
           \<and> elements w = map Live xs \<and> Capacity w = doubling_capacity (length xs)
           \<and> size_v w \<le> Capacity w \<and> Vector_inv w))
   \<and> (0 < k \<longrightarrow> (\<exists>j. doubling_capacity k = 2 ^ j) \<and> k \<le> doubling_capacity k \<and> doubling_capacity k < 2 * k)
   \<and> (Vector_inv v \<and> \<not> copy_throws E x
        \<and> (size_v v = Capacity v \<longrightarrow>
              \<not> alloc_throws E (max 1 (2 * Capacity v))
              \<and> (\<forall>y\<in>set (values_of (elements v)). \<not> relocation_throws E y)) \<longrightarrow>
       (\<exists>w tr. EmplaceBack E x v = Return (Addr (size_v v)) (w, tr)
          \<and> PushBack E x v = Return Void (w, tr)
          \<and> size_v w = size_v v + 1 \<and> elements w = elements v @ [Live x]
          \<and> operator_index w (size_v v) = Some (size_v v)
          \<and> Capacity w = (if size_v v = Capacity v then max 1 (2 * Capacity v) else Capacity v)
          \<and> Vector_inv w))"
  (is "?P1 \<and> ?P2 \<and> ?P3")
proof (intro conjI)
  show ?P1
  proof
    assume a: "(\<forall>x\<in>set xs. \<not> copy_throws E x \<and> \<not> relocation_throws E x) \<and> (\<forall>n. \<not> alloc_throws E n)"
    have "PushBack_all E xs (sequence [] (doubling_capacity (length ([]::'a list)) - length ([]::'a list)))
       = Some (sequence ([] @ xs) (doubling_capacity (length ([] @ xs)) - length ([] @ xs)))"
      using a by (intro PushBack_all_on_track) simp_all
    then have "PushBack_all E xs Vector_default
       = Some (sequence xs (doubling_capacity (length xs) - length xs))"
      by (simp add: Vector_default_def sequence_def)
    then have "PushBack_all E xs Vector_default
         = Some (sequence xs (doubling_capacity (length xs) - length xs))
       \<and> size_v (sequence xs (doubling_capacity (length xs) - length xs)) = length xs
       \<and> elements (sequence xs (doubling_capacity (length xs) - length xs)) = map Live xs
       \<and> Capacity (sequence xs (doubling_capacity (length xs) - length xs)) = doubling_capacity (length xs)
       \<and> size_v (sequence xs (doubling_capacity (length xs) - length xs))
           \<le> Capacity (sequence xs (doubling_capacity (length xs) - length xs))
       \<and> Vector_inv (sequence xs (doubling_capacity (length xs) - length xs))"
      using doubling_capacity_ge [of "length xs"] by (simp add: Vector_inv_sequence)
    then show "\<exists>w. PushBack_all E xs Vector_default = Some w \<and> size_v w = length xs
           \<and> elements w = map Live xs \<and> Capacity w = doubling_capacity (length xs)
           \<and> size_v w \<le> Capacity w \<and> Vector_inv w"
      by (rule exI)
  qed
next
  show ?P2
    using doubling_capacity_power [of k] doubling_capacity_ge [of k] doubling_capacity_lt [of k]
    by simp
next
  show ?P3
  proof
    assume a: "Vector_inv v \<and> \<not> copy_throws E x
        \<and> (size_v v = Capacity v \<longrightarrow>
              \<not> alloc_throws E (max 1 (2 * Capacity v))
              \<and> (\<forall>y\<in>set (values_of (elements v)). \<not> relocation_throws E y))"
    then obtain zs r where v: "v = sequence zs r"
      using Vector_inv_is_sequence by blast
    have h: "r = 0 \<longrightarrow> \<not> alloc_throws E (max 1 (2 * length zs)) \<and> (\<forall>y\<in>set zs. \<not> relocation_throws E y)"
      using a by (simp add: v)
    let ?r' = "(if r = 0 then max 1 (2 * length zs) else length zs + r) - Suc (length zs)"
    from a have "\<not> copy_throws E x" by simp
    from EmplaceBack_sequence [OF this h]
    obtain tr where e: "EmplaceBack E x (sequence zs r)
           = Return (Addr (length zs)) (sequence (zs @ [x]) ?r', tr)"
      by blast
    let ?w = "sequence (zs @ [x]) ?r'"
    have f1: "EmplaceBack E x v = Return (Addr (size_v v)) (?w, tr)"
      using e by (simp add: v)
    have f2: "PushBack E x v = Return Void (?w, tr)"
      using f1 by (rule PushBack_of_EmplaceBack)
    have f3: "size_v ?w = size_v v + 1" "elements ?w = elements v @ [Live x]"
      by (simp_all add: v)
    have f5: "operator_index ?w (size_v v) = Some (size_v v)"
      by (simp add: v operator_index_def RawMemory_at_def data_sequence)
    have f6: "Capacity ?w = (if size_v v = Capacity v then max 1 (2 * Capacity v) else Capacity v)"
    proof (cases "r = 0")
      case True
      then show ?thesis by (cases zs) (simp_all add: v)
    next
      case False
      then show ?thesis by (simp add: v)
    qed
    have f7: "Vector_inv ?w" by (rule Vector_inv_sequence)
    from f1 f2 f3 f5 f6 f7
    have "EmplaceBack E x v = Return (Addr (size_v v)) (?w, tr)
          \<and> PushBack E x v = Return Void (?w, tr)
          \<and> size_v ?w = size_v v + 1 \<and> elements ?w = elements v @ [Live x]
          \<and> operator_index ?w (size_v v) = Some (size_v v)
          \<and> Capacity ?w = (if size_v v = Capacity v then max 1 (2 * Capacity v) else Capacity v)
          \<and> Vector_inv ?w"
      by (intro conjI)
    then show "\<exists>w tr. EmplaceBack E x v = Return (Addr (size_v v)) (w, tr)
          \<and> PushBack E x v = Return Void (w, tr)
          \<and> size_v w = size_v v + 1 \<and> elements w = elements v @ [Live x]
          \<and> operator_index w (size_v v) = Some (size_v v)
          \<and> Capacity w = (if size_v v = Capacity v then max 1 (2 * Capacity v) else Capacity v)
          \<and> Vector_inv w"
      by (intro exI)
  qed
qed

theorem PushBack_capacity_doubles_witness:
  "\<not> copy_throws int_env 1 \<and> \<not> relocation_throws int_env 1
   \<and> \<not> copy_throws int_env 2 \<and> \<not> relocation_throws int_env 2
   \<and> \<not> copy_throws int_env 3 \<and> \<not> relocation_throws int_env 3
   \<and> (\<forall>n. \<not> alloc_throws int_env n)
   \<and> (\<exists>w. PushBack_all int_env [1, 2, 3] Vector_default = Some w \<and> size_v w = 3
          \<and> elements w = [Live 1, Live 2, Live 3] \<and> Capacity w = 4)
   \<and> (0::nat) < 3 \<and> (\<exists>j. doubling_capacity 3 = 2 ^ j) \<and> doubling_capacity 3 < 2 * 3
   \<and> Vector_inv (sequence [1::int, 2] 0) \<and> \<not> copy_throws int_env 7
   \<and> size_v (sequence [1::int, 2] 0) = Capacity (sequence [1::int, 2] 0)
   \<and> \<not> alloc_throws int_env (max 1 (2 * Capacity (sequence [1::int, 2] 0)))
   \<and> (\<exists>w tr. EmplaceBack int_env 7 (sequence [1, 2] 0) = Return (Addr 2) (w, tr)
          \<and> PushBack int_env 7 (sequence [1, 2] 0) = Return Void (w, tr)
          \<and> size_v w = 3 \<and> elements w = [Live 1, Live 2, Live 7]
          \<and> operator_index w 2 = Some 2 \<and> Capacity w = 4)"
proof -
  have e: "\<And>x. \<not> copy_throws int_env x" "\<And>x. \<not> relocation_throws int_env x"
    "\<And>n. \<not> alloc_throws int_env n"
    by (simp_all add: int_env_def relocation_throws_def)
  have i: "Vector_inv (sequence [1::int, 2] 0)" by (rule Vector_inv_sequence)
  have d: "doubling_capacity 3 = 4"
    by (simp add: numeral_eq_Suc)
  note t = PushBack_capacity_doubles [of "[1, 2, 3]" int_env 3 "sequence [1, 2] 0" 7]
  have 1: "\<exists>w. PushBack_all int_env [1, 2, 3] Vector_default = Some w \<and> size_v w = 3
          \<and> elements w = [Live 1, Live 2, Live 3] \<and> Capacity w = 4"
    using t e d by auto
  have 2: "(\<exists>j. doubling_capacity 3 = 2 ^ j) \<and> doubling_capacity 3 < 2 * 3"
    using t by simp
  have 3: "\<exists>w tr. EmplaceBack int_env 7 (sequence [1, 2] 0) = Return (Addr 2) (w, tr)
          \<and> PushBack int_env 7 (sequence [1, 2] 0) = Return Void (w, tr)
          \<and> size_v w = 3 \<and> elements w = [Live 1, Live 2, Live 7]
          \<and> operator_index w 2 = Some 2 \<and> Capacity w = 4"
    using t e i by (auto simp: numeral_eq_Suc)
  show ?thesis
    using e i 1 2 3 by simp
qed

text \<open>
  C7. \<open>PopBack\<close> on an empty sequence returns with the sequence unchanged and no event.
  On a non-empty sequence it runs the destructor on the last live element and on nothing
  else, and the size goes down by exactly one: the remaining elements are the old ones
  without the last, the vacated slot is raw again.
\<close>

theorem PopBack_removes_last:
  "(Empty v \<longrightarrow> PopBack v = Return Void (v, [])) \<and>
   (Vector_inv v \<and> \<not> Empty v \<longrightarrow>
      (\<exists>w. PopBack v = Return Void (w, [Ev_destroy (last (elements v))])
          \<and> is_live (last (elements v))
          \<and> size_v w = size_v v - 1 \<and> elements w = butlast (elements v)
          \<and> Capacity w = Capacity v \<and> Vector_inv w))"
proof (intro conjI impI)
  assume "Empty v"
  then show "PopBack v = Return Void (v, [])" by (simp add: PopBack_def)
next
  assume a: "Vector_inv v \<and> \<not> Empty v"
  then obtain xs r where v: "v = sequence xs r"
    using Vector_inv_is_sequence by blast
  with a have "xs \<noteq> []" by (auto simp: Empty_def)
  then obtain ys y where xs: "xs = ys @ [y]" by (metis rev_exhaust)
  have "destroy_n (map Live ys @ [Live y] @ replicate r Raw) (length ys) 1
          = Some (map Live ys @ replicate 1 Raw @ replicate r Raw, map Ev_destroy [Live y])"
    by (intro destroy_n_shape) simp_all
  then have "PopBack v = Return Void (sequence ys (Suc r), [Ev_destroy (Live y)])"
    by (simp add: PopBack_def Empty_def v xs sequence_def replicate_app_Cons_same)
  then show "\<exists>w. PopBack v = Return Void (w, [Ev_destroy (last (elements v))])
          \<and> is_live (last (elements v))
          \<and> size_v w = size_v v - 1 \<and> elements w = butlast (elements v)
          \<and> Capacity w = Capacity v \<and> Vector_inv w"
    by (simp add: v xs is_live_def Vector_inv_sequence)
qed

theorem PopBack_removes_last_witness:
  "\<not> Empty (sequence [1::int, 2] 1) \<and> Vector_inv (sequence [1::int, 2] 1) \<and>
   Empty (sequence ([]::int list) 1) \<and>
   PopBack (sequence ([]::int list) 1) = Return Void (sequence [] 1, []) \<and>
   (\<exists>w. PopBack (sequence [1::int, 2] 1) = Return Void (w, [Ev_destroy (Live 2)])
       \<and> size_v w = 1 \<and> elements w = [Live 1] \<and> Capacity w = 3)"
  using PopBack_removes_last [of "sequence [1::int, 2] 1"]
    PopBack_removes_last [of "sequence ([]::int list) 1"]
  by (auto simp: Vector_inv_sequence Empty_def numeral_3_eq_3)

text \<open>
  C8. The invariant is not preserved by \<open>Resize\<close>: the sequence 1, 2, 3 with capacity 8
  satisfies it, and after \<open>Resize(5)\<close> two of the five slots below \<open>size\<close> are raw.
\<close>

theorem Resize_breaks_invariant:
  "Vector_inv \<lparr>data = [Live (1::int), Live 2, Live 3, Raw, Raw, Raw, Raw, Raw], size_v = 3\<rparr> \<and>
   Resize int_env 5 \<lparr>data = [Live 1, Live 2, Live 3, Raw, Raw, Raw, Raw, Raw], size_v = 3\<rparr>
     = Return Void (\<lparr>data = [Live 1, Live 2, Live 3, Raw, Raw, Raw, Raw, Raw], size_v = 5\<rparr>, []) \<and>
   \<not> Vector_inv \<lparr>data = [Live (1::int), Live 2, Live 3, Raw, Raw, Raw, Raw, Raw], size_v = 5\<rparr>"
  by (simp add: Resize_def Capacity_def Vector_inv_def is_live_def)

text \<open>
  C9. Copy-assigning a sequence to itself is a no-op: whatever the store holds and
  whatever the element type does, \<open>v = v\<close> returns \<^verbatim>\<open>*this\<close> with the store (so size,
  capacity and elements of \<open>v\<close>) unchanged and no event; it neither throws nor faults.
\<close>

theorem self_assignment_is_noop: "operator_assign E \<sigma> a a = Return a (\<sigma>, [])"
  by (simp add: operator_assign_def)

text \<open>
  C10. The operations that shrink a sequence keep its capacity. For a sequence
  satisfying the invariant: \<open>PopBack\<close> returns; \<open>Erase\<close> at a position below \<open>size\<close> returns
  (move assignments not throwing); \<open>Resize\<close> to a size strictly below the capacity
  returns; copy assignment from another sequence whose size is within the capacity
  returns or throws; and in each case the capacity of the sequence afterwards is the
  capacity before.
\<close>

theorem shrinking_keeps_capacity:
  "(Vector_inv v \<longrightarrow> (\<exists>w tr. PopBack v = Return Void (w, tr) \<and> Capacity w = Capacity v))
   \<and> (Vector_inv v \<and> pos < size_v v
        \<and> (\<forall>y\<in>set (values_of (drop (Suc pos) (elements v))). \<not> move_assign_throws E y) \<longrightarrow>
        (\<exists>w tr. Erase E pos v = Return (Addr pos) (w, tr) \<and> Capacity w = Capacity v))
   \<and> (Vector_inv v \<and> n < Capacity v \<longrightarrow>
        (\<exists>w tr. Resize E n v = Return Void (w, tr) \<and> Capacity w = Capacity v))
   \<and> (this \<noteq> rhs \<and> \<sigma> this = Some v \<and> \<sigma> rhs = Some r \<and> Vector_inv v \<and> Vector_inv r
        \<and> size_v r \<le> Capacity v \<longrightarrow>
        (\<exists>w tr. (operator_assign E \<sigma> this rhs = Return this (\<sigma>(this \<mapsto> w), tr)
                  \<or> operator_assign E \<sigma> this rhs = Throw (\<sigma>(this \<mapsto> w), tr))
               \<and> Capacity w = Capacity v))"
  (is "?P1 \<and> ?P2 \<and> ?P3 \<and> ?P4")
proof (intro conjI)
  show ?P1
  proof
    assume "Vector_inv v"
    then obtain zs k where v: "v = sequence zs k"
      using Vector_inv_is_sequence by blast
    from PopBack_keeps_capacity [of zs k]
    show "\<exists>w tr. PopBack v = Return Void (w, tr) \<and> Capacity w = Capacity v"
      by (simp add: v)
  qed
next
  show ?P2
  proof
    assume a: "Vector_inv v \<and> pos < size_v v
        \<and> (\<forall>y\<in>set (values_of (drop (Suc pos) (elements v))). \<not> move_assign_throws E y)"
    then obtain zs k where v: "v = sequence zs k"
      using Vector_inv_is_sequence by blast
    from a have pos: "pos < length zs" by (simp add: v)
    define xs x ys where "xs = take pos zs" and "x = zs ! pos" and "ys = drop (Suc pos) zs"
    have zs: "zs = xs @ x # ys" and lx: "length xs = pos"
      using split_at_position [OF pos] by (simp_all add: xs_def x_def ys_def)
    have nt: "\<forall>y\<in>set ys. \<not> move_assign_throws E y"
      using a by (simp add: v ys_def drop_map)
    have "Erase E pos v = Return (Addr pos)
          (sequence (xs @ ys) (Suc k), [Ev_destroy (Live (last (x # map (moved_from E) ys)))])
        \<and> Capacity (sequence (xs @ ys) (Suc k)) = Capacity v"
      using Erase_sequence [OF nt, of xs x k] by (simp add: v zs lx del: last.simps)
    then show "\<exists>w tr. Erase E pos v = Return (Addr pos) (w, tr) \<and> Capacity w = Capacity v"
      by (intro exI)
  qed
next
  show ?P3
  proof
    assume a: "Vector_inv v \<and> n < Capacity v"
    then obtain zs k where v: "v = sequence zs k"
      using Vector_inv_is_sequence by blast
    from a have "n < length zs + k" by (simp add: v)
    from Resize_below_capacity [OF this, of E]
    show "\<exists>w tr. Resize E n v = Return Void (w, tr) \<and> Capacity w = Capacity v"
      by (simp add: v)
  qed
next
  show ?P4
  proof
    assume a: "this \<noteq> rhs \<and> \<sigma> this = Some v \<and> \<sigma> rhs = Some r \<and> Vector_inv v \<and> Vector_inv r
        \<and> size_v r \<le> Capacity v"
    then obtain vs rv where v: "v = sequence vs rv"
      using Vector_inv_is_sequence by blast
    from a obtain xs rr where r: "r = sequence xs rr"
      using Vector_inv_is_sequence by blast
    from a have h: "this \<noteq> rhs" "\<sigma> this = Some (sequence vs rv)" "\<sigma> rhs = Some (sequence xs rr)"
      "length xs \<le> length vs + rv"
      by (simp_all add: v r)
    from assign_reuse_keeps_capacity [OF h, of E]
    show "\<exists>w tr. (operator_assign E \<sigma> this rhs = Return this (\<sigma>(this \<mapsto> w), tr)
                  \<or> operator_assign E \<sigma> this rhs = Throw (\<sigma>(this \<mapsto> w), tr))
               \<and> Capacity w = Capacity v"
      by (simp add: v)
  qed
qed

theorem shrinking_keeps_capacity_witness:
  "Vector_inv (sequence [1::int, 2, 3] 2) \<and> Vector_inv (sequence [4::int, 5] 0)
   \<and> (1::nat) < size_v (sequence [1::int, 2, 3] 2) \<and> \<not> move_assign_throws int_env 3
   \<and> (1::nat) < Capacity (sequence [1::int, 2, 3] 2)
   \<and> (0::nat) \<noteq> 1 \<and> size_v (sequence [4::int, 5] 0) \<le> Capacity (sequence [1::int, 2, 3] 2)
   \<and> (\<exists>w tr. PopBack (sequence [1::int, 2, 3] 2) = Return Void (w, tr) \<and> Capacity w = 5)
   \<and> (\<exists>w tr. Erase int_env 1 (sequence [1, 2, 3] 2) = Return (Addr 1) (w, tr) \<and> Capacity w = 5)
   \<and> (\<exists>w tr. Resize int_env 1 (sequence [1, 2, 3] 2) = Return Void (w, tr) \<and> Capacity w = 5)
   \<and> (\<exists>w tr. (operator_assign int_env [0 \<mapsto> sequence [1, 2, 3] 2, 1 \<mapsto> sequence [4, 5] 0] 0 1
                  = Return 0 ([0 \<mapsto> sequence [1, 2, 3] 2, 1 \<mapsto> sequence [4, 5] 0](0 \<mapsto> w), tr)
              \<or> operator_assign int_env [0 \<mapsto> sequence [1, 2, 3] 2, 1 \<mapsto> sequence [4, 5] 0] 0 1
                  = Throw ([0 \<mapsto> sequence [1, 2, 3] 2, 1 \<mapsto> sequence [4, 5] 0](0 \<mapsto> w), tr))
            \<and> Capacity w = 5)"
proof -
  have i: "Vector_inv (sequence [1::int, 2, 3] 2)" "Vector_inv (sequence [4::int, 5] 0)"
    by (rule Vector_inv_sequence)+
  have e: "\<And>x. \<not> move_assign_throws int_env x"
    by (simp add: int_env_def)
  note t = shrinking_keeps_capacity [of "sequence [1::int, 2, 3] 2" 1 int_env 1 0 1
      "[0 \<mapsto> sequence [1, 2, 3] 2, 1 \<mapsto> sequence [4, 5] 0]" "sequence [4, 5] 0"]
  have 1: "\<exists>w tr. PopBack (sequence [1::int, 2, 3] 2) = Return Void (w, tr) \<and> Capacity w = 5"
    using t i by (simp add: numeral_eq_Suc)
  have 2: "\<exists>w tr. Erase int_env 1 (sequence [1, 2, 3] 2) = Return (Addr 1) (w, tr) \<and> Capacity w = 5"
    using t i e by (simp add: numeral_eq_Suc)
  have 3: "\<exists>w tr. Resize int_env 1 (sequence [1, 2, 3] 2) = Return Void (w, tr) \<and> Capacity w = 5"
    using t i by (simp add: numeral_eq_Suc)
  have 4: "\<exists>w tr. (operator_assign int_env [0 \<mapsto> sequence [1, 2, 3] 2, 1 \<mapsto> sequence [4, 5] 0] 0 1
                  = Return 0 ([0 \<mapsto> sequence [1, 2, 3] 2, 1 \<mapsto> sequence [4, 5] 0](0 \<mapsto> w), tr)
              \<or> operator_assign int_env [0 \<mapsto> sequence [1, 2, 3] 2, 1 \<mapsto> sequence [4, 5] 0] 0 1
                  = Throw ([0 \<mapsto> sequence [1, 2, 3] 2, 1 \<mapsto> sequence [4, 5] 0](0 \<mapsto> w), tr))
            \<and> Capacity w = 5"
    using t i by (simp add: numeral_eq_Suc)
  show ?thesis
    using i e 1 2 3 4 by simp
qed

end
